theory Spec2Isabelle
  imports Main
begin

section \<open>Strings\<close>

text \<open>
  A JavaScript string is a sequence of UTF-16 code units.  A code unit is modelled as a
  natural number, a string as a list of them; \<open>str\<close> turns a literal into its code units
  (all literals of the program are ASCII).
\<close>

type_synonym jsstring = "nat list"

definition str :: "string \<Rightarrow> jsstring" where
  "str s = map of_char s"

text \<open>
  The class \<open>\s\<close> of a regular expression and the characters removed by \<open>trim()\<close> are
  the same set: WhiteSpace and LineTerminator of ECMAScript.  The class \<open>\w\<close> is
  \<open>[A-Za-z0-9_]\<close> (none of the expressions has the \<open>i\<close> or \<open>u\<close> flag).
\<close>

definition isSpace :: "nat \<Rightarrow> bool" where
  "isSpace c \<longleftrightarrow>
     c = 9 \<or> c = 10 \<or> c = 11 \<or> c = 12 \<or> c = 13 \<or> c = 32 \<or> c = 160 \<or> c = 5760 \<or>
     (8192 \<le> c \<and> c \<le> 8202) \<or> c = 8232 \<or> c = 8233 \<or> c = 8239 \<or> c = 8287 \<or>
     c = 12288 \<or> c = 65279"

definition isWord :: "nat \<Rightarrow> bool" where
  "isWord c \<longleftrightarrow>
     (48 \<le> c \<and> c \<le> 57) \<or> (65 \<le> c \<and> c \<le> 90) \<or> c = 95 \<or> (97 \<le> c \<and> c \<le> 122)"

definition trim :: "jsstring \<Rightarrow> jsstring" where
  "trim s = rev (dropWhile isSpace (rev (dropWhile isSpace s)))"

definition startsWith :: "jsstring \<Rightarrow> jsstring \<Rightarrow> bool" where
  "startsWith s p \<longleftrightarrow> take (length p) s = p"

fun includesStr :: "jsstring \<Rightarrow> jsstring \<Rightarrow> bool" where
  "includesStr [] p = (p = [])"
| "includesStr (c # cs) p = (startsWith (c # cs) p \<or> includesStr cs p)"

text \<open>\<open>content.split("\n")\<close> and \<open>lines.join("\n")\<close>; the code unit of the newline is 10.\<close>

fun split :: "jsstring \<Rightarrow> jsstring list" where
  "split [] = [[]]"
| "split (c # cs) =
     (if c = 10 then [] # split cs
      else (case split cs of [] \<Rightarrow> [[c]] | l # ls \<Rightarrow> (c # l) # ls))"

fun join :: "jsstring list \<Rightarrow> jsstring" where
  "join [] = []"
| "join [l] = l"
| "join (l # ls) = l @ 10 # join ls"

section \<open>Regular expressions\<close>

text \<open>
  Every regular expression of the program is a sequence of the items below: a word
  boundary \<open>\b\<close>, a literal, an alternation of literals \<open>(?:a|b|...)\<close>, a greedy
  \<open>c*\<close> or \<open>c+\<close> over a character class, and an optional character \<open>c?\<close>.
\<close>

datatype cls = Space | Word | NotRParen

fun inCls :: "cls \<Rightarrow> nat \<Rightarrow> bool" where
  "inCls Space c = isSpace c"
| "inCls Word c = isWord c"
| "inCls NotRParen c = (c \<noteq> 41)"

datatype atom = WordB | Lit jsstring | Alt "jsstring list" | Star cls | Plus cls | Opt nat

type_synonym regex = "atom list"

definition boundary :: "jsstring \<Rightarrow> nat \<Rightarrow> bool" where
  "boundary s i \<longleftrightarrow>
     (0 < i \<and> i \<le> length s \<and> isWord (s ! (i - 1))) \<noteq> (i < length s \<and> isWord (s ! i))"

definition litAt :: "jsstring \<Rightarrow> jsstring \<Rightarrow> nat \<Rightarrow> bool" where
  "litAt w s i \<longleftrightarrow> i \<le> length s \<and> take (length w) (drop i s) = w"

definition run :: "cls \<Rightarrow> jsstring \<Rightarrow> nat \<Rightarrow> nat" where
  "run c s i = length (takeWhile (inCls c) (drop i s))"

text \<open>
  The positions at which one item can end when it starts at position \<open>i\<close>, in the order in
  which a backtracking matcher tries them: a greedy quantifier tries the longest run first,
  an alternation its alternatives from left to right.
\<close>

fun ends :: "atom \<Rightarrow> jsstring \<Rightarrow> nat \<Rightarrow> nat list" where
  "ends WordB s i = (if boundary s i then [i] else [])"
| "ends (Lit w) s i = (if litAt w s i then [i + length w] else [])"
| "ends (Alt ws) s i = map (\<lambda>w. i + length w) (filter (\<lambda>w. litAt w s i) ws)"
| "ends (Star c) s i = rev [i ..< i + run c s i + 1]"
| "ends (Plus c) s i = rev [i + 1 ..< i + run c s i + 1]"
| "ends (Opt ch) s i = (if i < length s \<and> s ! i = ch then [i + 1, i] else [i])"

fun firstSome :: "('a \<Rightarrow> 'b option) \<Rightarrow> 'a list \<Rightarrow> 'b option" where
  "firstSome f [] = None"
| "firstSome f (x # xs) = (case f x of Some y \<Rightarrow> Some y | None \<Rightarrow> firstSome f xs)"

text \<open>
  Matching a sequence at position \<open>i\<close>: the first end of the first item from which the rest
  of the sequence matches.  The result lists the position reached after each item; the last
  one is the end of the match, and the text of a capture group lies between two of them.
\<close>

primrec matchFrom :: "regex \<Rightarrow> jsstring \<Rightarrow> nat \<Rightarrow> nat list option" where
  "matchFrom [] s i = Some []"
| "matchFrom (a # r) s i =
     firstSome (\<lambda>j. map_option (Cons j) (matchFrom r s j)) (ends a s i)"

text \<open>\<open>RegExp.prototype.exec\<close> from \<open>lastIndex\<close>: the leftmost start that matches.\<close>

definition exec :: "regex \<Rightarrow> jsstring \<Rightarrow> nat \<Rightarrow> (nat \<times> nat list) option" where
  "exec r s lastIndex =
     firstSome (\<lambda>i. map_option (Pair i) (matchFrom r s i)) [lastIndex ..< length s + 1]"

definition matchEnd :: "nat \<Rightarrow> nat list \<Rightarrow> nat" where
  "matchEnd k tr = (if tr = [] then k else last tr)"


text \<open>
  A trace \<open>tr\<close> is a path of \<open>r\<close> from \<open>i\<close> when each position is one of the ends of the
  corresponding item.  The matcher returns the first path in its search order.
\<close>

primrec isPath :: "regex \<Rightarrow> jsstring \<Rightarrow> nat \<Rightarrow> nat list \<Rightarrow> bool" where
  "isPath [] s i tr = (tr = [])"
| "isPath (a # r) s i tr =
     (case tr of [] \<Rightarrow> False | j # tr' \<Rightarrow> j \<in> set (ends a s i) \<and> isPath r s j tr')"

section \<open>The patterns\<close>

definition CONSOLE_METHODS :: "jsstring list" where
  "CONSOLE_METHODS = map str
     [''log'', ''debug'', ''info'', ''warn'', ''error'', ''trace'', ''table'', ''dir'',
      ''time'', ''timeEnd'', ''timeLog'', ''count'', ''countReset'', ''group'', ''groupEnd'',
      ''groupCollapsed'', ''clear'', ''assert'', ''profile'', ''profileEnd'']"

text \<open>
  \<open>buildPatterns\<close> creates at most three \<open>RegExp\<close> objects, all with the \<open>g\<close> flag:
  \<^item> \<open>Console ms\<close> is \<open>\bconsole\s*\.\s*(?:m1|...|mk)\s*\(\<close> for the method names \<open>ms\<close>
    (names of \<open>CONSOLE_METHODS\<close>, which have no character special in an expression);
  \<^item> \<open>Debugger\<close> is \<open>\bdebugger\b\s*;?\<close>;
  \<^item> \<open>Alert\<close> is \<open>\balert\s*\(\<close>.
  Every use of a pattern in the program first sets \<open>lastIndex\<close> to 0, so the mutable
  \<open>lastIndex\<close> carries nothing from one use to the next and the patterns are values.
\<close>

datatype pattern = Console "jsstring list" | Debugger | Alert

fun regexOf :: "pattern \<Rightarrow> regex" where
  "regexOf (Console ms) =
     [WordB, Lit (str ''console''), Star Space, Lit (str ''.''), Star Space, Alt ms,
      Star Space, Lit (str ''('')]"
| "regexOf Debugger = [WordB, Lit (str ''debugger''), WordB, Star Space, Opt 59]"
| "regexOf Alert = [WordB, Lit (str ''alert''), Star Space, Lit (str ''('')]"

definition buildPatterns :: "jsstring list \<Rightarrow> pattern list" where
  "buildPatterns keep =
     (let methods = filter (\<lambda>m. m \<notin> set keep) CONSOLE_METHODS
      in (if length methods > 0 then [Console methods] else []) @ [Debugger, Alert])"

subsection \<open>Matches are not empty\<close>

lemma firstSome_SomeD: "firstSome f xs = Some y \<Longrightarrow> \<exists>x \<in> set xs. f x = Some y"
  by (induction xs) (auto split: option.splits)

lemma firstSome_None_iff: "firstSome f xs = None \<longleftrightarrow> (\<forall>x \<in> set xs. f x = None)"
  by (induction xs) (auto split: option.splits)

lemma matchFrom_isPath: "matchFrom r s i = Some tr \<Longrightarrow> isPath r s i tr"
proof (induction r arbitrary: i tr)
  case Nil
  then show ?case by simp
next
  case (Cons a r)
  from Cons.prems obtain j where j: "j \<in> set (ends a s i)"
    and m: "map_option (Cons j) (matchFrom r s j) = Some tr"
    by (auto dest: firstSome_SomeD)
  from m obtain tr' where "matchFrom r s j = Some tr'" "tr = j # tr'"
    by auto
  with j Cons.IH show ?case by simp
qed

lemma isPath_matchFrom: "isPath r s i tr \<Longrightarrow> matchFrom r s i \<noteq> None"
proof (induction r arbitrary: i tr)
  case Nil
  then show ?case by simp
next
  case (Cons a r)
  then obtain j tr' where "tr = j # tr'" "j \<in> set (ends a s i)" "isPath r s j tr'"
    by (auto split: list.splits)
  with Cons.IH have "j \<in> set (ends a s i)" "matchFrom r s j \<noteq> None"
    by auto
  then show ?case
    by (auto simp: firstSome_None_iff)
qed

lemma exec_SomeD:
  assumes "exec r s n = Some (k, tr)"
  shows "n \<le> k \<and> k \<le> length s \<and> matchFrom r s k = Some tr"
proof -
  from assms obtain i where "i \<in> set [n ..< length s + 1]"
    and "map_option (Pair i) (matchFrom r s i) = Some (k, tr)"
    unfolding exec_def by (blast dest: firstSome_SomeD)
  then show ?thesis by auto
qed

lemma exec_None_iff:
  "exec r s n = None \<longleftrightarrow> (\<forall>i. n \<le> i \<and> i \<le> length s \<longrightarrow> matchFrom r s i = None)"
  unfolding exec_def by (auto simp: firstSome_None_iff)

lemma take_eq_length: "take (length w) xs = w \<Longrightarrow> length w \<le> length xs"
proof -
  assume "take (length w) xs = w"
  then have "length (take (length w) xs) = length w" by (rule arg_cong)
  then show ?thesis by simp
qed

lemma ends_bounds:
  "j \<in> set (ends a s i) \<Longrightarrow> i \<le> length s \<Longrightarrow> i \<le> j \<and> j \<le> length s"
proof (cases a)
  case (Lit w)
  assume "j \<in> set (ends a s i)" "i \<le> length s"
  with Lit have w: "take (length w) (drop i s) = w" and j: "j = i + length w"
    by (auto simp: litAt_def split: if_splits)
  from take_eq_length [OF w] have "length w \<le> length s - i"
    by simp
  with j \<open>i \<le> length s\<close> show ?thesis by simp
next
  case (Alt ws)
  assume "j \<in> set (ends a s i)" "i \<le> length s"
  with Alt obtain w where w: "take (length w) (drop i s) = w" and j: "j = i + length w"
    by (auto simp: litAt_def)
  from take_eq_length [OF w] have "length w \<le> length s - i"
    by simp
  with j \<open>i \<le> length s\<close> show ?thesis by simp
next
  case (Star c)
  assume "j \<in> set (ends a s i)" "i \<le> length s"
  moreover have "run c s i \<le> length s - i"
    unfolding run_def by (metis length_drop length_takeWhile_le)
  ultimately show ?thesis using Star by auto
next
  case (Plus c)
  assume "j \<in> set (ends a s i)" "i \<le> length s"
  moreover have "run c s i \<le> length s - i"
    unfolding run_def by (metis length_drop length_takeWhile_le)
  ultimately show ?thesis using Plus by auto
qed (auto split: if_splits)

lemma isPath_bounds:
  "isPath r s i tr \<Longrightarrow> i \<le> length s \<Longrightarrow> j \<in> set tr \<Longrightarrow> i \<le> j \<and> j \<le> length s"
proof (induction r arbitrary: i tr)
  case Nil
  then show ?case by simp
next
  case (Cons a r)
  then obtain j' tr' where tr: "tr = j' # tr'" and j': "j' \<in> set (ends a s i)"
    and p: "isPath r s j' tr'"
    by (auto split: list.splits)
  from ends_bounds [OF j' Cons.prems(2)] have b: "i \<le> j'" "j' \<le> length s" by auto
  show ?case
  proof (cases "j = j'")
    case True
    with b show ?thesis by simp
  next
    case False
    with Cons.prems(3) tr have "j \<in> set tr'" by simp
    from Cons.IH [OF p b(2) this] b show ?thesis by simp
  qed
qed

lemma isPath_length: "isPath r s i tr \<Longrightarrow> length tr = length r"
  by (induction r arbitrary: i tr) (auto split: list.splits)


lemma path_grows:
  assumes "isPath (WordB # Lit w # r) s k tr" and "k \<le> length s" and "w \<noteq> []"
  shows "k < matchEnd k tr \<and> matchEnd k tr \<le> length s"
proof -
  from assms(3) obtain n where lw: "length w = Suc n"
    by (cases w) auto
  from assms(1) obtain tr' where tr: "tr = k # (k + length w) # tr'"
    and w: "litAt w s k" and p: "isPath r s (k + length w) tr'"
    by (auto split: list.splits if_splits)
  from w have le: "k + length w \<le> length s"
    using take_eq_length [of w "drop k s"] by (auto simp: litAt_def)
  show ?thesis
  proof (cases "tr' = []")
    case True
    with tr le lw show ?thesis by (simp add: matchEnd_def)
  next
    case False
    then have "last tr' \<in> set tr'" by simp
    from isPath_bounds [OF p le this] have "k + length w \<le> last tr'" "last tr' \<le> length s"
      by auto
    with lw have "k < last tr'" "last tr' \<le> length s" by auto
    with False tr show ?thesis by (simp add: matchEnd_def)
  qed
qed

lemma regexOf_shape: "\<exists>w r. regexOf p = WordB # Lit w # r \<and> w \<noteq> []"
  by (cases p) (simp_all add: str_def)

lemma pattern_exec_grows:
  assumes "exec (regexOf p) s n = Some (k, tr)"
  shows "n \<le> k \<and> k < matchEnd k tr \<and> matchEnd k tr \<le> length s"
proof -
  from exec_SomeD [OF assms] have k: "n \<le> k" "k \<le> length s"
    and m: "isPath (regexOf p) s k tr"
    by (auto dest: matchFrom_isPath)
  from regexOf_shape obtain w r where "regexOf p = WordB # Lit w # r" "w \<noteq> []"
    by blast
  with m k path_grows [of w r s k tr] show ?thesis by simp
qed

section \<open>Finding the matches\<close>

record Match =
  "file" :: jsstring
  line :: nat
  column :: nat
  type :: jsstring
  content :: jsstring

text \<open>
  The loop \<open>while ((match = pattern.exec(line)) !== null)\<close>: with the \<open>g\<close> flag each
  \<open>exec\<close> starts at \<open>lastIndex\<close> and leaves it at the end of its match.  The result lists
  \<open>match.index\<close> with the end of each match.  The loop ends because a match of a pattern
  is never empty.
\<close>

function execAll :: "pattern \<Rightarrow> jsstring \<Rightarrow> nat \<Rightarrow> (nat \<times> nat) list" where
  "execAll p s lastIndex =
     (case exec (regexOf p) s lastIndex of
        None \<Rightarrow> []
      | Some (k, tr) \<Rightarrow> (k, matchEnd k tr) # execAll p s (matchEnd k tr))"
  by pat_completeness auto
termination
proof (relation "measure (\<lambda>(p, s, n). length s + 1 - n)")
  show "wf (measure (\<lambda>(p, s, n). length s + 1 - n))" by simp
next
  fix p s lastIndex x k tr
  assume "exec (regexOf p) s lastIndex = Some x" and "(k, tr) = x"
  then have "exec (regexOf p) s lastIndex = Some (k, tr)" by simp
  from pattern_exec_grows [OF this]
  show "((p, s, matchEnd k tr), (p, s, lastIndex)) \<in> measure (\<lambda>(p, s, n). length s + 1 - n)"
    by auto
qed

text \<open>The expression \<open>/console\s*\.\s*(\w+)/\<close>; its group is the fifth item.\<close>

definition methodRe :: regex where
  "methodRe = [Lit (str ''console''), Star Space, Lit (str ''.''), Star Space, Plus Word]"

definition methodMatch :: "jsstring \<Rightarrow> jsstring option" where
  "methodMatch matchStr =
     (case exec methodRe matchStr 0 of
        Some (k, [p1, p2, p3, p4, p5]) \<Rightarrow> Some (take (p5 - p4) (drop p4 matchStr))
      | _ \<Rightarrow> None)"

definition typeOf :: "jsstring \<Rightarrow> jsstring" where
  "typeOf matchStr =
     (if includesStr matchStr (str ''console.'') then
        str ''console.'' @
          (case methodMatch matchStr of
             None \<Rightarrow> str ''log''
           | Some m \<Rightarrow> if m = [] then str ''log'' else m)
      else if includesStr matchStr (str ''debugger'') then str ''debugger''
      else if includesStr matchStr (str ''alert'') then str ''alert''
      else str ''unknown'')"

definition isComment :: "jsstring \<Rightarrow> bool" where
  "isComment trimmed \<longleftrightarrow>
     startsWith trimmed (str ''//'') \<or> startsWith trimmed (str ''/*'') \<or>
     startsWith trimmed (str ''*'')"

definition mkMatch :: "nat \<Rightarrow> jsstring \<Rightarrow> nat \<times> nat \<Rightarrow> Match" where
  "mkMatch lineIdx ln m =
     \<lparr>file = [], line = lineIdx + 1, column = fst m + 1,
      type = typeOf (take (snd m - fst m) (drop (fst m) ln)), content = trim ln\<rparr>"

text \<open>The loop over the patterns, for one line.\<close>

fun lineMatches :: "pattern list \<Rightarrow> nat \<Rightarrow> jsstring \<Rightarrow> Match list" where
  "lineMatches [] lineIdx ln = []"
| "lineMatches (p # ps) lineIdx ln =
     map (mkMatch lineIdx ln) (execAll p ln 0) @ lineMatches ps lineIdx ln"

text \<open>The loop over the lines, from \<open>lineIdx\<close> on.\<close>

fun findFrom :: "pattern list \<Rightarrow> jsstring list \<Rightarrow> nat \<Rightarrow> Match list" where
  "findFrom patterns [] lineIdx = []"
| "findFrom patterns (ln # lns) lineIdx =
     (if isComment (trim ln) then findFrom patterns lns (lineIdx + 1)
      else lineMatches patterns lineIdx ln @ findFrom patterns lns (lineIdx + 1))"

definition findMatches :: "jsstring \<Rightarrow> pattern list \<Rightarrow> Match list" where
  "findMatches src patterns = findFrom patterns (split src) 0"


section \<open>Removing the statements\<close>

text \<open>
  Reading an array out of range gives \<open>undefined\<close> in JavaScript, and calling a method of
  \<open>undefined\<close> throws a \<open>TypeError\<close>.  \<open>at\<close> is an array read whose result is used as a
  string at once.
\<close>

datatype error = TypeError

definition at :: "'a list \<Rightarrow> nat \<Rightarrow> error + 'a" where
  "at xs i = (if i < length xs then Inr (xs ! i) else Inl TypeError)"

text \<open>\<open>pattern.lastIndex = 0; pattern.test(trimmed)\<close>\<close>

definition test :: "pattern \<Rightarrow> jsstring \<Rightarrow> bool" where
  "test p s \<longleftrightarrow> exec (regexOf p) s 0 \<noteq> None"

text \<open>
  \<open>s.replace(re, "")\<close> for an expression with the \<open>g\<close> flag: the matches are collected from
  left to right, each search starting at the end of the previous match (one further when
  that match was empty), and the text between them is kept.
\<close>

lemma matchEnd_ge: "matchFrom r s k = Some tr \<Longrightarrow> k \<le> length s \<Longrightarrow> k \<le> matchEnd k tr"
proof -
  assume m: "matchFrom r s k = Some tr" and k: "k \<le> length s"
  show ?thesis
  proof (cases "tr = []")
    case True
    then show ?thesis by (simp add: matchEnd_def)
  next
    case False
    then have "last tr \<in> set tr" by simp
    from isPath_bounds [OF matchFrom_isPath [OF m] k this] False show ?thesis
      by (simp add: matchEnd_def)
  qed
qed

function allMatches :: "regex \<Rightarrow> jsstring \<Rightarrow> nat \<Rightarrow> (nat \<times> nat) list" where
  "allMatches r s lastIndex =
     (case exec r s lastIndex of
        None \<Rightarrow> []
      | Some (k, tr) \<Rightarrow>
          (k, matchEnd k tr) #
            allMatches r s (if matchEnd k tr = k then k + 1 else matchEnd k tr))"
  by pat_completeness auto
termination
proof (relation "measure (\<lambda>(r, s, n). length s + 1 - n)")
  show "wf (measure (\<lambda>(r, s, n). length s + 1 - n))" by simp
next
  fix r :: regex and s :: jsstring and lastIndex x k tr
  assume "exec r s lastIndex = Some x" and "(k, tr) = x"
  then have "exec r s lastIndex = Some (k, tr)" by simp
  from exec_SomeD [OF this] have "lastIndex \<le> k" "k \<le> length s" "k \<le> matchEnd k tr"
    by (auto intro: matchEnd_ge)
  then show "((r, s, if matchEnd k tr = k then k + 1 else matchEnd k tr),
              (r, s, lastIndex)) \<in> measure (\<lambda>(r, s, n). length s + 1 - n)"
    by auto
qed

fun cut :: "jsstring \<Rightarrow> nat \<Rightarrow> (nat \<times> nat) list \<Rightarrow> jsstring" where
  "cut s pos [] = drop pos s"
| "cut s pos ((k, e) # ms) = take (k - pos) (drop pos s) @ cut s e ms"

definition removeAll :: "regex \<Rightarrow> jsstring \<Rightarrow> jsstring" where
  "removeAll r s = cut s 0 (allMatches r s 0)"

text \<open>
  \<open>\bconsole\s*\.\s*\w+\s*\([^)]*\)\s*;?\s*\<close>, \<open>\bdebugger\b\s*;?\s*\<close> and
  \<open>\balert\s*\([^)]*\)\s*;?\s*\<close>
\<close>

definition stripConsoleRe :: regex where
  "stripConsoleRe =
     [WordB, Lit (str ''console''), Star Space, Lit (str ''.''), Star Space, Plus Word,
      Star Space, Lit (str ''(''), Star NotRParen, Lit (str '')''), Star Space, Opt 59,
      Star Space]"

definition stripDebuggerRe :: regex where
  "stripDebuggerRe = [WordB, Lit (str ''debugger''), WordB, Star Space, Opt 59, Star Space]"

definition stripAlertRe :: regex where
  "stripAlertRe =
     [WordB, Lit (str ''alert''), Star Space, Lit (str ''(''), Star NotRParen,
      Lit (str '')''), Star Space, Opt 59, Star Space]"

definition cleaned :: "jsstring \<Rightarrow> jsstring" where
  "cleaned trimmed =
     trim (removeAll stripAlertRe (removeAll stripDebuggerRe (removeAll stripConsoleRe trimmed)))"

text \<open>
  The first loop over the patterns: \<open>shouldRemove\<close> becomes true at the first pattern that
  matches, when what is left of the line after the three replacements is empty.
\<close>

fun wholeLine :: "pattern list \<Rightarrow> jsstring \<Rightarrow> bool" where
  "wholeLine [] trimmed = False"
| "wholeLine (p # ps) trimmed =
     (if test p trimmed then (if cleaned trimmed = [] then True else wholeLine ps trimmed)
      else wholeLine ps trimmed)"

text \<open>\<open>patterns.some((p) => { p.lastIndex = 0; return p.test(trimmed); })\<close>\<close>

fun some :: "pattern list \<Rightarrow> jsstring \<Rightarrow> bool" where
  "some [] trimmed = False"
| "some (p # ps) trimmed = (if test p trimmed then True else some ps trimmed)"

text \<open>\<open>(line.match(/\(/g) || []).length\<close> and the same for \<open>)\<close>: the number of occurrences.\<close>

definition parens :: "nat \<Rightarrow> jsstring \<Rightarrow> nat" where
  "parens ch ln = length (filter (\<lambda>c. c = ch) ln)"

abbreviation openParens :: "jsstring \<Rightarrow> nat" where
  "openParens ln \<equiv> parens 40 ln"

abbreviation closeParens :: "jsstring \<Rightarrow> nat" where
  "closeParens ln \<equiv> parens 41 ln"

text \<open>
  The inner loop \<open>while (depth > 0 && i + 1 < lines.length)\<close>; the result is the value of
  \<open>i\<close> after it, the index of the last line it has read.
\<close>

function consume :: "jsstring list \<Rightarrow> int \<Rightarrow> nat \<Rightarrow> error + nat" where
  "consume lines depth i =
     (if depth > 0 \<and> i + 1 < length lines then
        (case at lines (i + 1) of
           Inl e \<Rightarrow> Inl e
         | Inr nextLine \<Rightarrow>
             consume lines (depth + int (openParens nextLine) - int (closeParens nextLine))
               (i + 1))
      else Inr i)"
  by pat_completeness auto
termination
  by (relation "measure (\<lambda>(lines, depth, i). length lines - i)") auto

text \<open>\<open>if (i + 1 < lines.length && lines[i + 1].trim() === ";") i++\<close>\<close>

definition skipSemicolon :: "jsstring list \<Rightarrow> nat \<Rightarrow> error + nat" where
  "skipSemicolon lines i =
     (if i + 1 < length lines then
        (case at lines (i + 1) of
           Inl e \<Rightarrow> Inl e
         | Inr nxt \<Rightarrow> if trim nxt = str '';'' then Inr (i + 1) else Inr i)
      else Inr i)"

declare consume.simps [simp del]

lemma consume_ge: "consume lines depth i = Inr i' \<Longrightarrow> i \<le> i'"
proof (induction lines depth i rule: consume.induct)
  case (1 lines depth i)
  show ?case
  proof (cases "depth > 0 \<and> i + 1 < length lines")
    case True
    with "1.prems" have
      "consume lines (depth + int (openParens (lines ! (i + 1))) -
         int (closeParens (lines ! (i + 1)))) (i + 1) = Inr i'"
      by (subst (asm) consume.simps) (simp add: at_def)
    with "1.IH" [of "lines ! (i + 1)"] True have "i + 1 \<le> i'"
      by (simp add: at_def)
    then show ?thesis by simp
  next
    case False
    with "1.prems" show ?thesis
      by (subst (asm) consume.simps) auto
  qed
qed

lemma skipSemicolon_ge: "skipSemicolon lines i = Inr i' \<Longrightarrow> i \<le> i'"
  by (auto simp: skipSemicolon_def at_def split: if_splits)


text \<open>
  The loop \<open>for (let i = 0; i < lines.length; i++)\<close> of \<open>removeStatements\<close>, from the
  index \<open>i\<close> on, with the lines pushed so far.
\<close>

function mainLoop ::
  "pattern list \<Rightarrow> jsstring list \<Rightarrow> nat \<Rightarrow> jsstring list \<Rightarrow> error + jsstring list" where
  "mainLoop patterns lines i result =
     (if i < length lines then
        (case at lines i of
           Inl e \<Rightarrow> Inl e
         | Inr ln \<Rightarrow>
             if isComment (trim ln) then mainLoop patterns lines (i + 1) (result @ [ln])
             else if wholeLine patterns (trim ln) then mainLoop patterns lines (i + 1) result
             else if some patterns (trim ln) then
               (if openParens ln > closeParens ln then
                  (case consume lines (int (openParens ln) - int (closeParens ln)) i of
                     Inl e \<Rightarrow> Inl e
                   | Inr i' \<Rightarrow>
                       (case skipSemicolon lines i' of
                          Inl e \<Rightarrow> Inl e
                        | Inr i'' \<Rightarrow> mainLoop patterns lines (i'' + 1) result))
                else mainLoop patterns lines (i + 1) result)
             else mainLoop patterns lines (i + 1) (result @ [ln]))
      else Inr result)"
  by pat_completeness auto
termination
proof (relation "measure (\<lambda>(patterns, lines, i, result). length lines - i)")
  fix patterns :: "pattern list" and lines :: "jsstring list" and i :: nat
    and result :: "jsstring list" and ln :: jsstring and i' i'' :: nat
  assume lt: "i < length lines"
    and c: "consume lines (int (openParens ln) - int (closeParens ln)) i = Inr i'"
    and k: "skipSemicolon lines i' = Inr i''"
  from consume_ge [OF c] skipSemicolon_ge [OF k] have "i \<le> i''"
    by simp
  with lt show "((patterns, lines, i'' + 1, result), (patterns, lines, i, result))
      \<in> measure (\<lambda>(patterns, lines, i, result). length lines - i)"
    by auto
qed auto

declare mainLoop.simps [simp del]

text \<open>The second loop: a blank line that follows a blank line is not copied.\<close>

function collapseLoop :: "jsstring list \<Rightarrow> nat \<Rightarrow> jsstring list \<Rightarrow> error + jsstring list" where
  "collapseLoop result i final =
     (if i < length result then
        (if i > 0 then
           (case at result i of
              Inl e \<Rightarrow> Inl e
            | Inr cur \<Rightarrow>
                if trim cur = [] then
                  (case at result (i - 1) of
                     Inl e \<Rightarrow> Inl e
                   | Inr prev \<Rightarrow>
                       if trim prev = [] then collapseLoop result (i + 1) final
                       else collapseLoop result (i + 1) (final @ [result ! i]))
                else collapseLoop result (i + 1) (final @ [result ! i]))
         else collapseLoop result (i + 1) (final @ [result ! i]))
      else Inr final)"
  by pat_completeness auto
termination
  by (relation "measure (\<lambda>(result, i, final). length result - i)") auto

declare collapseLoop.simps [simp del]

definition removeStatements :: "jsstring \<Rightarrow> pattern list \<Rightarrow> error + jsstring" where
  "removeStatements src patterns =
     (case mainLoop patterns (split src) 0 [] of
        Inl e \<Rightarrow> Inl e
      | Inr result \<Rightarrow>
          (case collapseLoop result 0 [] of
             Inl e \<Rightarrow> Inl e
           | Inr final \<Rightarrow> Inr (join final)))"


section \<open>The two loops as functions on the remaining lines\<close>

text \<open>
  For the proofs the loops of \<open>removeStatements\<close> are restated on the list of the lines
  that are still to be read: \<open>afterBlock\<close> is what the inner loop leaves, \<open>dropSemicolon\<close>
  the step over a lone semicolon, \<open>scan\<close> the main loop and \<open>squeeze\<close> the second loop,
  whose flag says whether the previous line of \<open>result\<close> was blank.  The lemmas
  \<open>mainLoop_scan\<close> and \<open>collapseLoop_squeeze\<close> show that the loops compute these
  functions and never read out of range.
\<close>


fun afterBlock :: "int \<Rightarrow> jsstring list \<Rightarrow> jsstring list" where
  "afterBlock depth [] = []"
| "afterBlock depth (l # ls) =
     (if depth > 0 then afterBlock (depth + int (openParens l) - int (closeParens l)) ls
      else l # ls)"

fun dropSemicolon :: "jsstring list \<Rightarrow> jsstring list" where
  "dropSemicolon [] = []"
| "dropSemicolon (l # ls) = (if trim l = str '';'' then ls else l # ls)"

lemma afterBlock_length: "length (afterBlock depth ls) \<le> length ls"
  by (induction ls arbitrary: depth) (auto intro: le_SucI)

lemma dropSemicolon_length: "length (dropSemicolon ls) \<le> length ls"
  by (cases ls) auto

function scan :: "pattern list \<Rightarrow> jsstring list \<Rightarrow> jsstring list" where
  "scan patterns [] = []"
| "scan patterns (l # ls) =
     (if isComment (trim l) then l # scan patterns ls
      else if wholeLine patterns (trim l) then scan patterns ls
      else if some patterns (trim l) then
        (if openParens l > closeParens l then
           scan patterns
             (dropSemicolon (afterBlock (int (openParens l) - int (closeParens l)) ls))
         else scan patterns ls)
      else l # scan patterns ls)"
  by pat_completeness auto
termination
proof (relation "measure (\<lambda>(patterns, ls). length ls)")
  fix patterns :: "pattern list" and l :: jsstring and ls :: "jsstring list"
  have "length (dropSemicolon (afterBlock (int (openParens l) - int (closeParens l)) ls))
      \<le> length ls"
    using dropSemicolon_length afterBlock_length by (rule le_trans)
  then show "((patterns, dropSemicolon (afterBlock (int (openParens l) - int (closeParens l)) ls)),
              (patterns, l # ls)) \<in> measure (\<lambda>(patterns, ls). length ls)"
    by simp
qed auto

fun squeeze :: "bool \<Rightarrow> jsstring list \<Rightarrow> jsstring list" where
  "squeeze prevBlank [] = []"
| "squeeze prevBlank (l # ls) =
     (if prevBlank \<and> trim l = [] then squeeze True ls else l # squeeze (trim l = []) ls)"

lemma consume_afterBlock:
  "i < length lines \<Longrightarrow>
   \<exists>i'. consume lines depth i = Inr i' \<and> i' < length lines \<and>
        drop (Suc i') lines = afterBlock depth (drop (Suc i) lines)"
proof (induction lines depth i rule: consume.induct)
  case (1 lines depth i)
  show ?case
  proof (cases "depth > 0 \<and> i + 1 < length lines")
    case True
    then have d: "drop (Suc i) lines = lines ! (i + 1) # drop (Suc (Suc i)) lines"
      by (simp add: Cons_nth_drop_Suc)
    from True have a: "at lines (i + 1) = Inr (lines ! (i + 1))"
      by (simp add: at_def)
    from "1.IH" [OF True a] True obtain i' where
      "consume lines (depth + int (openParens (lines ! (i + 1))) -
         int (closeParens (lines ! (i + 1)))) (i + 1) = Inr i'"
      "i' < length lines"
      "drop (Suc i') lines = afterBlock (depth + int (openParens (lines ! (i + 1))) -
         int (closeParens (lines ! (i + 1)))) (drop (Suc (Suc i)) lines)"
      by auto
    with True a d show ?thesis
      by (subst consume.simps) simp
  next
    case False
    then have "consume lines depth i = Inr i"
      by (subst consume.simps) auto
    moreover have "afterBlock depth (drop (Suc i) lines) = drop (Suc i) lines"
    proof (cases "depth > 0")
      case True
      with False "1.prems" have "drop (Suc i) lines = []" by simp
      then show ?thesis by simp
    next
      case False
      then show ?thesis by (cases "drop (Suc i) lines") auto
    qed
    ultimately show ?thesis using "1.prems" by simp
  qed
qed

lemma skipSemicolon_dropSemicolon:
  "i < length lines \<Longrightarrow>
   \<exists>i'. skipSemicolon lines i = Inr i' \<and> i' < length lines \<and>
        drop (Suc i') lines = dropSemicolon (drop (Suc i) lines)"
proof (cases "i + 1 < length lines")
  case True
  then have d: "drop (Suc i) lines = lines ! (i + 1) # drop (Suc (Suc i)) lines"
    by (simp add: Cons_nth_drop_Suc)
  with True show ?thesis
    by (simp add: skipSemicolon_def at_def)
next
  case False
  assume "i < length lines"
  with False show ?thesis
    by (simp add: skipSemicolon_def)
qed


declare scan.simps [simp del]

lemma mainLoop_scan:
  "i \<le> length lines \<Longrightarrow>
   mainLoop patterns lines i result = Inr (result @ scan patterns (drop i lines))"
proof (induction patterns lines i result rule: mainLoop.induct)
  case (1 patterns lines i result)
  show ?case
  proof (cases "i < length lines")
    case False
    with "1.prems" show ?thesis
      by (subst mainLoop.simps) (simp add: scan.simps)
  next
    case True
    define ln where "ln = lines ! i"
    from True have a: "at lines i = Inr ln"
      by (simp add: at_def ln_def)
    from True have d: "drop i lines = ln # drop (Suc i) lines"
      by (simp add: Cons_nth_drop_Suc ln_def)
    from True have le: "i + 1 \<le> length lines" by simp
    note IH = "1.IH" [OF True a]
    consider (comment) "isComment (trim ln)"
      | (whole) "\<not> isComment (trim ln)" "wholeLine patterns (trim ln)"
      | (block) "\<not> isComment (trim ln)" "\<not> wholeLine patterns (trim ln)"
          "some patterns (trim ln)" "openParens ln > closeParens ln"
      | (single) "\<not> isComment (trim ln)" "\<not> wholeLine patterns (trim ln)"
          "some patterns (trim ln)" "\<not> openParens ln > closeParens ln"
      | (keep) "\<not> isComment (trim ln)" "\<not> wholeLine patterns (trim ln)"
          "\<not> some patterns (trim ln)"
      by blast
    then show ?thesis
    proof cases
      case comment
      with IH(1) le True a d show ?thesis
        by (subst mainLoop.simps) (simp add: scan.simps)
    next
      case whole
      with IH(2) le True a d show ?thesis
        by (subst mainLoop.simps) (simp add: scan.simps)
    next
      case block
      let ?depth = "int (openParens ln) - int (closeParens ln)"
      from consume_afterBlock [OF True, of ?depth] obtain i' where
        c: "consume lines ?depth i = Inr i'" and i': "i' < length lines"
        and d': "drop (Suc i') lines = afterBlock ?depth (drop (Suc i) lines)"
        by blast
      from skipSemicolon_dropSemicolon [OF i'] obtain i'' where
        k: "skipSemicolon lines i' = Inr i''" and i'': "i'' < length lines"
        and d'': "drop (Suc i'') lines = dropSemicolon (drop (Suc i') lines)"
        by blast
      from i'' have "i'' + 1 \<le> length lines" by simp
      from IH(3) [OF block c k this]
      have "mainLoop patterns lines (i'' + 1) result =
          Inr (result @ scan patterns (drop (i'' + 1) lines))" .
      with block True a d c k d' d'' show ?thesis
        by (subst mainLoop.simps) (simp add: scan.simps)
    next
      case single
      with IH(4) le True a d show ?thesis
        by (subst mainLoop.simps) (simp add: scan.simps)
    next
      case keep
      with IH(5) le True a d show ?thesis
        by (subst mainLoop.simps) (simp add: scan.simps)
    qed
  qed
qed

lemma collapseLoop_squeeze:
  "i \<le> length result \<Longrightarrow>
   collapseLoop result i final =
     Inr (final @ squeeze (i > 0 \<and> trim (result ! (i - 1)) = []) (drop i result))"
proof (induction result i final rule: collapseLoop.induct)
  case (1 result i final)
  show ?case
  proof (cases "i < length result")
    case False
    with "1.prems" show ?thesis
      by (subst collapseLoop.simps) simp
  next
    case True
    from True have a: "at result i = Inr (result ! i)"
      by (simp add: at_def)
    from True have d: "drop i result = result ! i # drop (Suc i) result"
      by (simp add: Cons_nth_drop_Suc)
    from True have le: "i + 1 \<le> length result" by simp
    show ?thesis
    proof (cases "i > 0")
      case False
      with True obtain x xs where r: "result = x # xs"
        by (cases result) auto
      from "1.IH"(4) [OF True False] le False r show ?thesis
        by (subst collapseLoop.simps) simp
    next
      case pos: True
      with True have b: "at result (i - 1) = Inr (result ! (i - 1))"
        by (simp add: at_def)
      show ?thesis
      proof (cases "trim (result ! i) = []")
        case False
        with "1.IH"(3) [OF True pos a] le True pos a d show ?thesis
          by (subst collapseLoop.simps) simp
      next
        case blank: True
        show ?thesis
        proof (cases "trim (result ! (i - 1)) = []")
          case True
          with "1.IH"(1) [OF \<open>i < length result\<close> pos a blank b] le
            \<open>i < length result\<close> pos a b d blank
          show ?thesis
            by (subst collapseLoop.simps) simp
        next
          case False
          with "1.IH"(2) [OF True pos a blank b] le True pos a b d blank
          show ?thesis
            by (subst collapseLoop.simps) simp
        qed
      qed
    qed
  qed
qed

lemma removeStatements_eq:
  "removeStatements src patterns = Inr (join (squeeze False (scan patterns (split src))))"
  by (simp add: removeStatements_def mainLoop_scan collapseLoop_squeeze)



section \<open>Lines, blank lines and kept lines\<close>

text \<open>No two consecutive lines are blank (empty after \<open>trim\<close>).\<close>

fun noBlankPair :: "jsstring list \<Rightarrow> bool" where
  "noBlankPair [] = True"
| "noBlankPair [l] = True"
| "noBlankPair (a # b # ls) = (\<not> (trim a = [] \<and> trim b = []) \<and> noBlankPair (b # ls))"

lemma split_not_Nil: "split s \<noteq> []"
  by (induction s) (auto split: list.splits)

lemma split_no_newline: "l \<in> set (split s) \<Longrightarrow> 10 \<notin> set l"
  by (induction s arbitrary: l) (auto split: list.splits if_splits)

lemma split_line: "10 \<notin> set l \<Longrightarrow> split l = [l]"
  by (induction l) auto

lemma split_append_newline:
  "10 \<notin> set l \<Longrightarrow> split (l @ 10 # s) = l # split s"
  by (induction l) (auto split: list.splits)

lemma split_join:
  "ls \<noteq> [] \<Longrightarrow> \<forall>l \<in> set ls. 10 \<notin> set l \<Longrightarrow> split (join ls) = ls"
proof (induction ls rule: join.induct)
  case 1
  then show ?case by simp
next
  case (2 l)
  then show ?case by (simp add: split_line)
next
  case (3 l v va)
  then show ?case by (simp add: split_append_newline)
qed

lemma join_split: "join (split s) = s"
proof (induction s)
  case Nil
  show ?case by simp
next
  case (Cons c s)
  obtain l ls where sp: "split s = l # ls"
    using split_not_Nil [of s] by (cases "split s") auto
  with Cons show ?case
    by (cases ls) auto
qed

lemma afterBlock_subset: "set (afterBlock depth ls) \<subseteq> set ls"
  by (induction ls arbitrary: depth) auto

lemma dropSemicolon_subset: "set (dropSemicolon ls) \<subseteq> set ls"
  by (cases ls) auto

text \<open>A line that the main loop keeps is a comment or has no match.\<close>

definition quiet :: "pattern list \<Rightarrow> jsstring \<Rightarrow> bool" where
  "quiet patterns ln \<longleftrightarrow> isComment (trim ln) \<or> \<not> some patterns (trim ln)"

lemma scan_kept: "l \<in> set (scan patterns ls) \<Longrightarrow> l \<in> set ls \<and> quiet patterns l"
proof (induction patterns ls rule: scan.induct)
  case (1 patterns)
  then show ?case by (simp add: scan.simps)
next
  case (2 patterns x ls)
  let ?rest = "dropSemicolon (afterBlock (int (openParens x) - int (closeParens x)) ls)"
  have sub: "set ?rest \<subseteq> set ls"
    using dropSemicolon_subset afterBlock_subset by blast
  from "2.prems" consider "l = x" "quiet patterns x"
    | "l \<in> set (scan patterns ls)"
        "isComment (trim x) \<or> wholeLine patterns (trim x) \<or>
         \<not> (some patterns (trim x) \<and> openParens x > closeParens x)"
    | "l \<in> set (scan patterns ?rest)" "\<not> isComment (trim x)"
        "\<not> wholeLine patterns (trim x)" "some patterns (trim x)"
        "openParens x > closeParens x"
    by (subst (asm) scan.simps) (auto simp: quiet_def split: if_splits)
  then show ?case
  proof cases
    case 1
    then show ?thesis by simp
  next
    case 2
    with "2.IH"(1,2,4,5) show ?thesis by (auto split: if_splits)
  next
    case 3
    with "2.IH"(3) sub show ?thesis by auto
  qed
qed

lemma squeeze_subset: "set (squeeze b ls) \<subseteq> set ls"
  by (induction ls arbitrary: b) auto

lemma squeeze_noBlankPair:
  "noBlankPair (squeeze b ls) \<and>
   (b \<longrightarrow> squeeze b ls = [] \<or> trim (hd (squeeze b ls)) \<noteq> [])"
proof (induction ls arbitrary: b)
  case Nil
  show ?case by simp
next
  case (Cons l ls)
  show ?case
  proof (cases "b \<and> trim l = []")
    case True
    with Cons [of True] show ?thesis by simp
  next
    case False
    from Cons [of "trim l = []"] have
      n: "noBlankPair (squeeze (trim l = []) ls)"
      and h: "trim l = [] \<longrightarrow> squeeze (trim l = []) ls = [] \<or>
        trim (hd (squeeze (trim l = []) ls)) \<noteq> []"
      by auto
    from n h have "noBlankPair (l # squeeze (trim l = []) ls)"
      by (cases "squeeze (trim l = []) ls") auto
    with False show ?thesis by auto
  qed
qed

lemma squeeze_id:
  "noBlankPair ls \<Longrightarrow> (b \<longrightarrow> ls = [] \<or> trim (hd ls) \<noteq> []) \<Longrightarrow> squeeze b ls = ls"
proof (induction ls arbitrary: b rule: noBlankPair.induct)
  case 1
  show ?case by simp
next
  case (2 l)
  then show ?case by auto
next
  case (3 x y ls)
  then show ?case by auto
qed



text \<open>
  A line opens a block when the main loop, reading it, enters its branch for a statement
  of several lines.  \<open>staysOpen depth ls\<close>: the depth is positive before each line of
  \<open>ls\<close>, so the inner loop reads them all; \<open>depthAfter\<close> is the depth after them.
\<close>

definition opensBlock :: "pattern list \<Rightarrow> jsstring \<Rightarrow> bool" where
  "opensBlock patterns ln \<longleftrightarrow>
     \<not> isComment (trim ln) \<and> \<not> wholeLine patterns (trim ln) \<and> some patterns (trim ln) \<and>
     openParens ln > closeParens ln"

abbreviation depthOf :: "jsstring \<Rightarrow> int" where
  "depthOf ln \<equiv> int (openParens ln) - int (closeParens ln)"

fun staysOpen :: "int \<Rightarrow> jsstring list \<Rightarrow> bool" where
  "staysOpen depth [] = True"
| "staysOpen depth (l # ls) = (depth > 0 \<and> staysOpen (depth + depthOf l) ls)"

fun depthAfter :: "int \<Rightarrow> jsstring list \<Rightarrow> int" where
  "depthAfter depth [] = depth"
| "depthAfter depth (l # ls) = depthAfter (depth + depthOf l) ls"

lemma wholeLine_some: "wholeLine patterns t \<Longrightarrow> some patterns t"
  by (induction patterns) (auto split: if_splits)

lemma scan_quiet: "\<forall>l \<in> set ls. quiet patterns l \<Longrightarrow> scan patterns (ls @ rest) = ls @ scan patterns rest"
proof (induction ls)
  case Nil
  show ?case by simp
next
  case (Cons l ls)
  then have "quiet patterns l" by simp
  then have "isComment (trim l) \<or> (\<not> wholeLine patterns (trim l) \<and> \<not> some patterns (trim l))"
    using wholeLine_some by (auto simp: quiet_def)
  with Cons show ?case
    by (auto simp: scan.simps)
qed

lemma scan_quiet_id: "\<forall>l \<in> set ls. quiet patterns l \<Longrightarrow> scan patterns ls = ls"
  using scan_quiet [of ls patterns "[]"] by (simp add: scan.simps)

lemma afterBlock_closed:
  "staysOpen depth body \<Longrightarrow> depthAfter depth body \<le> 0 \<Longrightarrow>
   afterBlock depth (body @ rest) = rest"
proof (induction body arbitrary: depth)
  case Nil
  then show ?case by (cases rest) auto
next
  case (Cons l body)
  then show ?case by (simp add: algebra_simps)
qed

lemma afterBlock_open: "staysOpen depth rest \<Longrightarrow> afterBlock depth rest = []"
  by (induction rest arbitrary: depth) (auto simp: algebra_simps)

lemma scan_block:
  "opensBlock patterns first \<Longrightarrow>
   scan patterns (first # ls) = scan patterns (dropSemicolon (afterBlock (depthOf first) ls))"
  by (simp add: opensBlock_def scan.simps)


section \<open>Evaluation\<close>

text \<open>The definitions with their literals as code units, for evaluating concrete inputs.\<close>

lemma firstSome_cong: "xs = ys \<Longrightarrow> firstSome f xs = firstSome f ys"
  by simp

lemma CONSOLE_METHODS_num:
  "CONSOLE_METHODS =
     [[108, 111, 103], [100, 101, 98, 117, 103], [105, 110, 102, 111],
      [119, 97, 114, 110], [101, 114, 114, 111, 114], [116, 114, 97, 99, 101],
      [116, 97, 98, 108, 101], [100, 105, 114], [116, 105, 109, 101],
      [116, 105, 109, 101, 69, 110, 100], [116, 105, 109, 101, 76, 111, 103],
      [99, 111, 117, 110, 116], [99, 111, 117, 110, 116, 82, 101, 115, 101, 116],
      [103, 114, 111, 117, 112], [103, 114, 111, 117, 112, 69, 110, 100],
      [103, 114, 111, 117, 112, 67, 111, 108, 108, 97, 112, 115, 101, 100],
      [99, 108, 101, 97, 114], [97, 115, 115, 101, 114, 116],
      [112, 114, 111, 102, 105, 108, 101],
      [112, 114, 111, 102, 105, 108, 101, 69, 110, 100]]"
  by (simp add: CONSOLE_METHODS_def str_def)

lemma regexOf_num:
  "regexOf (Console ms) =
     [WordB, Lit [99, 111, 110, 115, 111, 108, 101], Star Space, Lit [46], Star Space, Alt ms,
      Star Space, Lit [40]]"
  "regexOf Debugger = [WordB, Lit [100, 101, 98, 117, 103, 103, 101, 114], WordB, Star Space, Opt 59]"
  "regexOf Alert = [WordB, Lit [97, 108, 101, 114, 116], Star Space, Lit [40]]"
  by (simp_all add: str_def)

lemma methodRe_num:
  "methodRe = [Lit [99, 111, 110, 115, 111, 108, 101], Star Space, Lit [46], Star Space, Plus Word]"
  by (simp add: methodRe_def str_def)

lemma stripRe_num:
  "stripConsoleRe =
     [WordB, Lit [99, 111, 110, 115, 111, 108, 101], Star Space, Lit [46], Star Space,
      Plus Word, Star Space, Lit [40], Star NotRParen, Lit [41], Star Space, Opt 59,
      Star Space]"
  "stripDebuggerRe =
     [WordB, Lit [100, 101, 98, 117, 103, 103, 101, 114], WordB, Star Space, Opt 59,
      Star Space]"
  "stripAlertRe =
     [WordB, Lit [97, 108, 101, 114, 116], Star Space, Lit [40], Star NotRParen, Lit [41],
      Star Space, Opt 59, Star Space]"
  by (simp_all add: stripConsoleRe_def stripDebuggerRe_def stripAlertRe_def str_def)

lemma isComment_num:
  "isComment trimmed \<longleftrightarrow>
     startsWith trimmed [47, 47] \<or> startsWith trimmed [47, 42] \<or> startsWith trimmed [42]"
  by (simp add: isComment_def str_def)

lemma typeOf_num:
  "typeOf matchStr =
     (if includesStr matchStr [99, 111, 110, 115, 111, 108, 101, 46] then
        [99, 111, 110, 115, 111, 108, 101, 46] @
          (case methodMatch matchStr of
             None \<Rightarrow> [108, 111, 103]
           | Some m \<Rightarrow> if m = [] then [108, 111, 103] else m)
      else if includesStr matchStr [100, 101, 98, 117, 103, 103, 101, 114]
        then [100, 101, 98, 117, 103, 103, 101, 114]
      else if includesStr matchStr [97, 108, 101, 114, 116] then [97, 108, 101, 114, 116]
      else [117, 110, 107, 110, 111, 119, 110])"
  by (simp add: typeOf_def str_def split: option.split)

lemma dropSemicolon_num:
  "dropSemicolon [] = []"
  "dropSemicolon (l # ls) = (if trim l = [59] then ls else l # ls)"
  by (simp_all add: str_def)

declare regexOf.simps [simp del] dropSemicolon.simps [simp del]
declare execAll.simps [simp del] allMatches.simps [simp del]

lemmas ev = str_def trim_def isSpace_def isWord_def startsWith_def boundary_def litAt_def
  run_def exec_def matchEnd_def regexOf_num methodRe_num stripRe_num isComment_num typeOf_num
  dropSemicolon_num methodMatch_def mkMatch_def findMatches_def test_def removeStatements_eq
  scan.simps parens_def cleaned_def removeAll_def execAll.simps allMatches.simps
  quiet_def opensBlock_def

lemma buildPatterns_Nil: "buildPatterns [] = [Console CONSOLE_METHODS, Debugger, Alert]"
  by (simp add: buildPatterns_def CONSOLE_METHODS_def)


lemma blank_run_removed:
  "removeStatements (str ''a\<newline>\<newline>\<newline>b'') [Console CONSOLE_METHODS, Debugger, Alert] =
     Inr (str ''a\<newline>\<newline>b'')"
  by (simp add: ev cong: firstSome_cong)

lemma blank_run_no_match:
  "findMatches (str ''a\<newline>\<newline>\<newline>b'') [Console CONSOLE_METHODS, Debugger, Alert] = []"
  by (simp add: ev cong: firstSome_cong)

lemma buildPatterns_error:
  "buildPatterns [[101, 114, 114, 111, 114]] =
     [Console (filter (\<lambda>m. m \<noteq> [101, 114, 114, 111, 114]) CONSOLE_METHODS), Debugger, Alert]"
  by (simp add: buildPatterns_def CONSOLE_METHODS_num)

subsection \<open>Matches and lines\<close>

lemma execAll_elem:
  "(k, e) \<in> set (execAll p s n) \<Longrightarrow>
   n \<le> k \<and> k < e \<and> e \<le> length s \<and>
   (\<exists>tr. matchFrom (regexOf p) s k = Some tr \<and> e = matchEnd k tr)"
proof (induction p s n rule: execAll.induct)
  case (1 p s n)
  show ?case
  proof (cases "exec (regexOf p) s n")
    case None
    with "1.prems" show ?thesis by (simp add: execAll.simps)
  next
    case (Some x)
    obtain k' tr' where x: "x = (k', tr')" by (cases x)
    from Some x have ex: "exec (regexOf p) s n = Some (k', tr')" by simp
    note g = pattern_exec_grows [OF ex]
    from "1.prems" ex have "(k, e) = (k', matchEnd k' tr') \<or>
        (k, e) \<in> set (execAll p s (matchEnd k' tr'))"
      by (subst (asm) execAll.simps) simp
    then show ?thesis
    proof
      assume "(k, e) = (k', matchEnd k' tr')"
      with g exec_SomeD [OF ex] show ?thesis by auto
    next
      assume "(k, e) \<in> set (execAll p s (matchEnd k' tr'))"
      from "1.IH" [OF Some x [symmetric] this] g show ?thesis by auto
    qed
  qed
qed

lemma execAll_Nil: "exec (regexOf p) s n = None \<Longrightarrow> execAll p s n = []"
  by (simp add: execAll.simps)

lemma isComment_not_blank: "isComment t \<Longrightarrow> t \<noteq> []"
  by (auto simp: isComment_def startsWith_def str_def)

lemma lineMatches_line: "m \<in> set (lineMatches patterns idx ln) \<Longrightarrow> line m = idx + 1"
  by (induction patterns) (auto simp: mkMatch_def)

lemma findFrom_line:
  "m \<in> set (findFrom patterns ls n) \<Longrightarrow>
   n < line m \<and> line m \<le> n + length ls \<and> \<not> isComment (trim (ls ! (line m - 1 - n)))"
proof (induction ls arbitrary: n)
  case Nil
  then show ?case by simp
next
  case (Cons l ls)
  show ?case
  proof (cases "m \<in> set (findFrom patterns ls (n + 1))")
    case True
    from Cons.IH [OF this] have "n + 1 < line m" "line m \<le> n + 1 + length ls"
      "\<not> isComment (trim (ls ! (line m - 1 - (n + 1))))"
      by auto
    moreover from this(1) have "line m - 1 - n = Suc (line m - 1 - (n + 1))"
      by simp
    ultimately show ?thesis by simp
  next
    case False
    with Cons.prems have "\<not> isComment (trim l)" "m \<in> set (lineMatches patterns n l)"
      by (auto split: if_splits)
    with lineMatches_line [of m patterns n l] show ?thesis by simp
  qed
qed

lemma scan_no_opener:
  "\<forall>l \<in> set pre. \<not> opensBlock patterns l \<Longrightarrow>
   scan patterns (pre @ rest) = filter (quiet patterns) pre @ scan patterns rest"
proof (induction pre)
  case Nil
  show ?case by simp
next
  case (Cons l pre)
  then have "\<not> opensBlock patterns l" by simp
  with Cons wholeLine_some [of patterns "trim l"] show ?case
    by (auto simp: scan.simps quiet_def opensBlock_def)
qed

lemma squeeze_keeps: "l \<in> set ls \<Longrightarrow> trim l \<noteq> [] \<Longrightarrow> l \<in> set (squeeze b ls)"
  by (induction ls arbitrary: b) auto

lemma squeeze_filter:
  "\<forall>l. P l \<longrightarrow> trim l \<noteq> [] \<Longrightarrow> filter P (squeeze b ls) = filter P ls"
  by (induction ls arbitrary: b) auto

lemma lines_of_output:
  "split (join (squeeze False (scan patterns (split src)))) =
     (if squeeze False (scan patterns (split src)) = [] then [[]]
      else squeeze False (scan patterns (split src)))"
proof -
  let ?F = "squeeze False (scan patterns (split src))"
  have "\<forall>l \<in> set ?F. 10 \<notin> set l"
    using squeeze_subset scan_kept split_no_newline by blast
  then show ?thesis
    by (simp add: split_join)
qed

subsection \<open>A pattern matches a line exactly when it matches the trimmed line\<close>

lemma space_not_word: "isSpace c \<Longrightarrow> \<not> isWord c"
  by (auto simp: isSpace_def isWord_def)

lemma trim_decomp:
  "\<exists>pre post. s = pre @ trim s @ post \<and> (\<forall>c \<in> set pre. isSpace c) \<and> (\<forall>c \<in> set post. isSpace c)"
proof -
  let ?d = "dropWhile isSpace s"
  have "s = takeWhile isSpace s @ ?d" by simp
  moreover have "rev ?d = takeWhile isSpace (rev ?d) @ dropWhile isSpace (rev ?d)" by simp
  then have "?d = rev (dropWhile isSpace (rev ?d)) @ rev (takeWhile isSpace (rev ?d))"
    by (metis rev_append rev_rev_ident)
  ultimately have "s = takeWhile isSpace s @ trim s @ rev (takeWhile isSpace (rev ?d))"
    by (simp add: trim_def)
  moreover have "\<forall>c \<in> set (takeWhile isSpace s). isSpace c"
    by (auto dest: set_takeWhileD)
  moreover have "\<forall>c \<in> set (rev (takeWhile isSpace (rev ?d))). isSpace c"
    by (auto dest: set_takeWhileD)
  ultimately show ?thesis by blast
qed

subsection \<open>A character in front\<close>

lemma firstSome_map: "firstSome f (map g xs) = firstSome (\<lambda>x. f (g x)) xs"
  by (induction xs) (auto split: option.splits)

lemma map_option_firstSome:
  "map_option h (firstSome f xs) = firstSome (\<lambda>x. map_option h (f x)) xs"
  by (induction xs) (auto split: option.splits)

lemma boundary_Cons:
  "\<not> isWord c \<Longrightarrow> boundary (c # t) (Suc i) \<longleftrightarrow> boundary t i"
  by (cases i) (auto simp: boundary_def)

lemma litAt_Cons: "litAt w (c # t) (Suc i) \<longleftrightarrow> litAt w t i"
  by (simp add: litAt_def)

lemma run_Cons: "run cl (c # t) (Suc i) = run cl t i"
  by (simp add: run_def)

lemma rev_upt_Suc: "rev [Suc a ..< Suc b] = map Suc (rev [a ..< b])"
proof -
  have "[Suc a ..< Suc b] = map Suc [a ..< b]"
    by (rule map_Suc_upt [symmetric])
  then show ?thesis
    by (simp only: rev_map)
qed

lemma ends_Cons:
  "\<not> isWord c \<Longrightarrow> ends a (c # t) (Suc i) = map Suc (ends a t i)"
proof (cases a)
  case (Star cl)
  have "rev [Suc i ..< Suc (i + run cl t i + 1)] = map Suc (rev [i ..< i + run cl t i + 1])"
    by (rule rev_upt_Suc)
  with Star show ?thesis by (simp add: run_Cons)
next
  case (Plus cl)
  have "rev [Suc (i + 1) ..< Suc (i + run cl t i + 1)] = map Suc (rev [i + 1 ..< i + run cl t i + 1])"
    by (rule rev_upt_Suc)
  with Plus show ?thesis by (simp add: run_Cons)
qed (auto simp: boundary_Cons litAt_Cons comp_def)

lemma matchFrom_Cons:
  "\<not> isWord c \<Longrightarrow> matchFrom r (c # t) (Suc i) = map_option (map Suc) (matchFrom r t i)"
proof (induction r arbitrary: i)
  case Nil
  show ?case by simp
next
  case (Cons a r)
  then show ?case
    by (simp add: ends_Cons firstSome_map map_option_firstSome option.map_comp comp_def)
qed

lemma matchFrom_prepend:
  "\<forall>c \<in> set pre. \<not> isWord c \<Longrightarrow>
   matchFrom r (pre @ t) (length pre + i) = None \<longleftrightarrow> matchFrom r t i = None"
  by (induction pre) (auto simp: matchFrom_Cons)


subsection \<open>White space behind\<close>

lemma boundary_append:
  "i \<le> length t \<Longrightarrow> \<forall>c \<in> set post. \<not> isWord c \<Longrightarrow>
   boundary (t @ post) i \<longleftrightarrow> boundary t i"
proof -
  assume i: "i \<le> length t" and post: "\<forall>c \<in> set post. \<not> isWord c"
  have l: "0 < i \<Longrightarrow> (t @ post) ! (i - 1) = t ! (i - 1)"
    using i by (auto simp: nth_append)
  have r: "(i < length (t @ post) \<and> isWord ((t @ post) ! i)) \<longleftrightarrow> (i < length t \<and> isWord (t ! i))"
  proof (cases "i < length t")
    case True
    then show ?thesis by (simp add: nth_append)
  next
    case False
    with i have "i = length t" by simp
    with post show ?thesis by (cases post) auto
  qed
  from i l r show ?thesis
    unfolding boundary_def by auto
qed

lemma litAt_append:
  "i + length w \<le> length t \<Longrightarrow> litAt w (t @ post) i \<longleftrightarrow> litAt w t i"
  by (simp add: litAt_def)

lemma litAt_bound: "litAt w t i \<Longrightarrow> i + length w \<le> length t"
  using take_eq_length [of w "drop i t"] by (auto simp: litAt_def)

lemma run_le: "i + run c s i \<le> length s \<or> length s < i"
proof -
  have "run c s i \<le> length s - i"
    unfolding run_def by (metis length_drop length_takeWhile_le)
  then show ?thesis by auto
qed

lemma run_append:
  "i \<le> length t \<Longrightarrow> j \<le> length t \<Longrightarrow>
   j \<le> i + run c (t @ post) i \<longleftrightarrow> j \<le> i + run c t i"
proof -
  assume i: "i \<le> length t" and j: "j \<le> length t"
  show ?thesis
  proof (cases "\<forall>x \<in> set (drop i t). inCls c x")
    case True
    then have tw: "takeWhile (inCls c) (drop i t) = drop i t"
      by simp
    have a: "run c t i = length t - i"
      unfolding run_def tw by simp
    from True have "takeWhile (inCls c) (drop i t @ post) = drop i t @ takeWhile (inCls c) post"
      by (simp add: takeWhile_append2)
    moreover from i have "drop i (t @ post) = drop i t @ post"
      by simp
    ultimately have "run c (t @ post) i = length t - i + length (takeWhile (inCls c) post)"
      unfolding run_def by simp
    with a i j show ?thesis by auto
  next
    case False
    then obtain x where "x \<in> set (drop i t)" "\<not> inCls c x" by blast
    then have "takeWhile (inCls c) (drop i t @ post) = takeWhile (inCls c) (drop i t)"
      by (rule takeWhile_append1)
    with i show ?thesis by (simp add: run_def)
  qed
qed

lemma ends_append:
  assumes "i \<le> length t" and "\<forall>c \<in> set post. \<not> isWord c" and "j \<le> length t"
  shows "j \<in> set (ends a (t @ post) i) \<longleftrightarrow> j \<in> set (ends a t i)"
proof (cases a)
  case WordB
  with assms show ?thesis by (simp add: boundary_append)
next
  case (Lit w)
  show ?thesis
  proof (cases "i + length w \<le> length t")
    case True
    with Lit show ?thesis by (simp add: litAt_append)
  next
    case False
    with assms(3) litAt_bound [of w t i] Lit show ?thesis by auto
  qed
next
  case (Alt ws)
  have "litAt w (t @ post) i \<longleftrightarrow> litAt w t i" if "j = i + length w" for w
    using that assms(3) by (simp add: litAt_append)
  with Alt show ?thesis by auto
next
  case (Star c)
  with assms run_append [of i t j c post] show ?thesis by auto
next
  case (Plus c)
  with assms run_append [of i t j c post] show ?thesis by auto
next
  case (Opt ch)
  with assms show ?thesis by (auto simp: nth_append)
qed

lemma isPath_append:
  "i \<le> length t \<Longrightarrow> \<forall>c \<in> set post. \<not> isWord c \<Longrightarrow> \<forall>j \<in> set tr. j \<le> length t \<Longrightarrow>
   isPath r (t @ post) i tr \<longleftrightarrow> isPath r t i tr"
proof (induction r arbitrary: i tr)
  case Nil
  show ?case by simp
next
  case (Cons a r)
  show ?case
  proof (cases tr)
    case Nil
    then show ?thesis by simp
  next
    case (Cons j tr')
    with Cons.prems have j: "j \<le> length t" and tr': "\<forall>j \<in> set tr'. j \<le> length t"
      by auto
    from Cons.IH [OF j Cons.prems(2) tr'] ends_append [OF Cons.prems(1,2) j, of a] Cons
    show ?thesis by simp
  qed
qed

lemma isPath_le_last:
  "isPath r s i tr \<Longrightarrow> i \<le> length s \<Longrightarrow> j \<in> set tr \<Longrightarrow> j \<le> last tr"
proof (induction r arbitrary: i tr)
  case Nil
  then show ?case by simp
next
  case (Cons a r)
  then obtain j' tr' where tr: "tr = j' # tr'" and j': "j' \<in> set (ends a s i)"
    and p: "isPath r s j' tr'"
    by (auto split: list.splits)
  from ends_bounds [OF j' Cons.prems(2)] have b: "j' \<le> length s" by simp
  show ?case
  proof (cases "tr' = []")
    case True
    with tr Cons.prems(3) show ?thesis by simp
  next
    case False
    then have l: "last tr' \<in> set tr'" by simp
    show ?thesis
    proof (cases "j \<in> set tr'")
      case True
      from Cons.IH [OF p b True] False tr show ?thesis by simp
    next
      case False
      with Cons.prems(3) tr have "j = j'" by simp
      with isPath_bounds [OF p b l] \<open>tr' \<noteq> []\<close> tr show ?thesis by simp
    qed
  qed
qed


lemma litAt_nth: "litAt w s i \<Longrightarrow> n < length w \<Longrightarrow> i + n < length s \<and> s ! (i + n) = w ! n"
proof -
  assume l: "litAt w s i" and n: "n < length w"
  from litAt_bound [OF l] n have b: "i + n < length s" by simp
  from l have "take (length w) (drop i s) ! n = w ! n" by (simp add: litAt_def)
  with n b show ?thesis by simp
qed

lemma not_in_spaces:
  assumes "\<forall>c \<in> set post. isSpace c" and "j < length (t @ post)" and "\<not> isSpace ((t @ post) ! j)"
  shows "j < length t"
proof (rule ccontr)
  assume "\<not> j < length t"
  with assms(2) have "(t @ post) ! j = post ! (j - length t)" "j - length t < length post"
    by (auto simp: nth_append)
  with assms(1,3) show False by (metis nth_mem)
qed

lemma path_inside:
  assumes p: "isPath r (t @ post) k tr" and k: "k \<le> length (t @ post)"
    and post: "\<forall>c \<in> set post. isSpace c" and e: "tr \<noteq> []" "last tr \<le> length t"
  shows "k \<le> length t \<and> isPath r t k tr"
proof -
  from e have "last tr \<in> set tr" by simp
  from isPath_bounds [OF p k this] e have k': "k \<le> length t" by simp
  have "\<forall>j \<in> set tr. j \<le> length t"
    using isPath_le_last [OF p k] e by fastforce
  moreover from post have "\<forall>c \<in> set post. \<not> isWord c"
    by (auto dest: space_not_word)
  ultimately show ?thesis
    using p k' by (simp add: isPath_append)
qed

lemma isPath_Cons:
  "isPath (a # r) s i tr \<longleftrightarrow>
     (\<exists>j tr'. tr = j # tr' \<and> j \<in> set (ends a s i) \<and> isPath r s j tr')"
  by (cases tr) auto

declare isPath.simps(2) [simp del]
declare isPath_Cons [simp]

lemma isPath_last:
  "isPath r s i tr \<Longrightarrow> r \<noteq> [] \<Longrightarrow> tr \<noteq> [] \<and> (\<exists>j. last tr \<in> set (ends (last r) s j))"
proof (induction r arbitrary: i tr)
  case Nil
  then show ?case by simp
next
  case (Cons a r)
  from Cons.prems(1) obtain j tr' where tr: "tr = j # tr'" and j: "j \<in> set (ends a s i)"
    and p: "isPath r s j tr'"
    by auto
  show ?case
  proof (cases "r = []")
    case True
    with p have "tr' = []" by simp
    with tr j True show ?thesis by auto
  next
    case False
    from Cons.IH [OF p False] obtain j' where "tr' \<noteq> []" "last tr' \<in> set (ends (last r) s j')"
      by blast
    with tr False show ?thesis by auto
  qed
qed

lemma path_ends_with_paren:
  assumes p: "isPath (r @ [Lit [40]]) (t @ post) k tr" and k: "k \<le> length (t @ post)"
    and post: "\<forall>c \<in> set post. isSpace c"
  shows "k \<le> length t \<and> isPath (r @ [Lit [40]]) t k tr"
proof -
  from isPath_last [OF p] obtain j where tr: "tr \<noteq> []"
    and j: "last tr \<in> set (ends (Lit [40]) (t @ post) j)"
    by auto
  from j have l: "litAt [40] (t @ post) j" and j': "last tr = j + 1"
    by (auto split: if_splits)
  from litAt_nth [OF l, of 0] have "j < length (t @ post)" "(t @ post) ! j = 40"
    by simp_all
  with not_in_spaces [OF post, of j t] have "j < length t"
    by (simp add: isSpace_def)
  with j' have "last tr \<le> length t" by simp
  with tr path_inside [OF p k post] show ?thesis by simp
qed

lemma pattern_inside:
  assumes p: "isPath (regexOf p) (t @ post) k tr" and k: "k \<le> length (t @ post)"
    and post: "\<forall>c \<in> set post. isSpace c"
  shows "k \<le> length t \<and> (\<exists>tr'. isPath (regexOf p) t k tr')"
proof (cases p)
  case (Console ms)
  let ?r = "[WordB, Lit [99, 111, 110, 115, 111, 108, 101], Star Space, Lit [46], Star Space,
    Alt ms, Star Space]"
  from Console have eq: "regexOf p = ?r @ [Lit [40]]"
    by (simp add: regexOf_num)
  from p have "isPath (?r @ [Lit [40]]) (t @ post) k tr"
    unfolding eq .
  from path_ends_with_paren [OF this k post] show ?thesis
    unfolding eq by blast
next
  case Alert
  let ?r = "[WordB, Lit [97, 108, 101, 114, 116], Star Space]"
  from Alert have eq: "regexOf p = ?r @ [Lit [40]]"
    by (simp add: regexOf_num)
  from p have "isPath (?r @ [Lit [40]]) (t @ post) k tr"
    unfolding eq .
  from path_ends_with_paren [OF this k post] show ?thesis
    unfolding eq by blast
next
  case Debugger
  let ?w = "[100, 101, 98, 117, 103, 103, 101, 114] :: nat list"
  from post have nw: "\<forall>c \<in> set post. \<not> isWord c"
    by (auto dest: space_not_word)
  from Debugger p have b1: "boundary (t @ post) k" and l: "litAt ?w (t @ post) k"
    and b2: "boundary (t @ post) (k + length ?w)"
    by (auto simp: regexOf_num isPath_Cons split: if_splits)
  from litAt_nth [OF l, of 7] have "k + 7 < length (t @ post)" "(t @ post) ! (k + 7) = 114"
    by simp_all
  with not_in_spaces [OF post, of "k + 7" t] have le: "k + length ?w \<le> length t"
    by (simp add: isSpace_def)
  then have kt: "k \<le> length t" by simp
  from b1 kt nw have "boundary t k"
    by (simp add: boundary_append)
  moreover from l le have "litAt ?w t k"
    by (simp only: litAt_append)
  moreover from b2 le nw have "boundary t (k + length ?w)"
    by (simp only: boundary_append)
  ultimately have "isPath (regexOf Debugger) t k
      [k, k + length ?w, k + length ?w, k + length ?w, k + length ?w]"
    by (auto simp: regexOf_num)
  with Debugger kt show ?thesis by blast
qed

lemma pattern_starts_inside:
  assumes "isPath (regexOf p) s k tr" and "k \<le> length s"
  shows "k < length s \<and> \<not> isSpace (s ! k)"
proof -
  from assms(1) obtain w where "litAt w s k" "w \<noteq> []" "\<not> isSpace (w ! 0)"
    by (cases p) (auto simp: regexOf_num isPath_Cons isSpace_def split: if_splits)
  with litAt_nth [of w s k 0] show ?thesis by simp
qed

lemma exec_not_None:
  "n \<le> i \<Longrightarrow> i \<le> length s \<Longrightarrow> matchFrom r s i \<noteq> None \<Longrightarrow> exec r s n \<noteq> None"
  by (auto simp: exec_None_iff)

lemma test_sandwich:
  assumes pre: "\<forall>c \<in> set pre. isSpace c" and post: "\<forall>c \<in> set post. isSpace c"
  shows "test p (pre @ t @ post) \<longleftrightarrow> test p t"
proof -
  let ?R = "regexOf p" and ?s = "pre @ t @ post"
  from pre post have nw: "\<forall>c \<in> set pre. \<not> isWord c" "\<forall>c \<in> set post. \<not> isWord c"
    by (auto dest: space_not_word)
  show ?thesis
  proof
    assume "test p t"
    then obtain k tr where k: "k \<le> length t" and m: "matchFrom ?R t k = Some tr"
      by (auto simp: test_def exec_None_iff)
    from m have p: "isPath ?R t k tr" by (rule matchFrom_isPath)
    have b: "\<forall>j \<in> set tr. j \<le> length t"
      using isPath_bounds [OF p k] by blast
    from p have "isPath ?R (t @ post) k tr"
      by (rule isPath_append [OF k nw(2) b, THEN iffD2])
    then have "matchFrom ?R (t @ post) k \<noteq> None"
      by (rule isPath_matchFrom)
    with nw(1) have "matchFrom ?R ?s (length pre + k) \<noteq> None"
      by (simp only: matchFrom_prepend simp_thms)
    moreover from k have "length pre + k \<le> length ?s" by simp
    ultimately have "exec ?R ?s 0 \<noteq> None"
      using exec_not_None [of 0 "length pre + k" ?s ?R] by simp
    then show "test p ?s" by (simp add: test_def)
  next
    assume "test p ?s"
    then obtain k tr where k: "k \<le> length ?s" and m: "matchFrom ?R ?s k = Some tr"
      by (auto simp: test_def exec_None_iff)
    from m have p: "isPath ?R ?s k tr" by (rule matchFrom_isPath)
    from pattern_starts_inside [OF p k] have ns: "k < length ?s" "\<not> isSpace (?s ! k)"
      by auto
    have "length pre \<le> k"
    proof (rule ccontr)
      assume "\<not> length pre \<le> k"
      then have lt: "k < length pre" by simp
      then have "?s ! k = pre ! k" by (simp add: nth_append)
      moreover from lt have "pre ! k \<in> set pre" by simp
      ultimately show False using pre ns(2) by auto
    qed
    then obtain k' where k': "k = length pre + k'"
      using le_Suc_ex by blast
    from m k' have "matchFrom ?R ?s (length pre + k') \<noteq> None"
      by simp
    with nw(1) have "matchFrom ?R (t @ post) k' \<noteq> None"
      by (simp only: matchFrom_prepend simp_thms)
    then obtain tr' where "isPath ?R (t @ post) k' tr'"
      by (auto dest: matchFrom_isPath)
    moreover from k k' have "k' \<le> length (t @ post)"
      by simp
    ultimately obtain tr'' where "k' \<le> length t" "isPath ?R t k' tr''"
      using pattern_inside [OF _ _ post] by blast
    then have "k' \<le> length t" "matchFrom ?R t k' \<noteq> None"
      by (auto dest: isPath_matchFrom)
    then have "exec ?R t 0 \<noteq> None"
      using exec_not_None [of 0 k' t ?R] by simp
    then show "test p t" by (simp add: test_def)
  qed
qed

lemma test_trim: "test p (trim s) \<longleftrightarrow> test p s"
proof -
  from trim_decomp [of s] obtain pre post where s: "s = pre @ trim s @ post"
    and sp: "\<forall>c \<in> set pre. isSpace c" "\<forall>c \<in> set post. isSpace c"
    by blast
  from s have "test p s \<longleftrightarrow> test p (pre @ trim s @ post)"
    by (rule arg_cong)
  with test_sandwich [OF sp] show ?thesis by blast
qed

subsection \<open>The output is a fixed point\<close>

lemma test_Nil: "\<not> test p []"
  by (cases p) (simp_all add: test_def exec_def regexOf_num boundary_def)

lemma some_iff: "some patterns t \<longleftrightarrow> (\<exists>p \<in> set patterns. test p t)"
  by (induction patterns) auto

lemma lineMatches_quiet: "\<not> some patterns (trim l) \<Longrightarrow> lineMatches patterns idx l = []"
proof (induction patterns)
  case Nil
  show ?case by simp
next
  case (Cons p ps)
  then have "\<not> test p (trim l)" "\<not> some ps (trim l)"
    by (auto split: if_splits)
  then have "\<not> test p l" "lineMatches ps idx l = []"
    using Cons.IH by (simp_all add: test_trim)
  then have "exec (regexOf p) l 0 = None" "lineMatches ps idx l = []"
    by (simp_all only: test_def not_not)
  then show ?case by (simp add: execAll_Nil)
qed

lemma findFrom_quiet: "\<forall>l \<in> set ls. quiet patterns l \<Longrightarrow> findFrom patterns ls n = []"
  by (induction ls arbitrary: n) (auto simp: quiet_def lineMatches_quiet)

lemma quiet_Nil: "quiet patterns []"
  by (simp add: quiet_def some_iff trim_def test_Nil)

lemma output_fixpoint:
  assumes "out = join (squeeze False (scan patterns (split src)))"
  shows "join (squeeze False (scan patterns (split out))) = out"
    and "findFrom patterns (split out) 0 = []"
proof -
  let ?F = "squeeze False (scan patterns (split src))"
  have q: "\<forall>l \<in> set (split out). quiet patterns l"
    using squeeze_subset [of False "scan patterns (split src)"] scan_kept [of _ patterns "split src"]
    by (auto simp: assms lines_of_output quiet_Nil)
  then have "scan patterns (split out) = split out"
    by (rule scan_quiet_id)
  moreover have "squeeze False (split out) = split out"
  proof (cases "?F = []")
    case True
    then show ?thesis by (simp add: assms)
  next
    case False
    with squeeze_noBlankPair [of False "scan patterns (split src)"]
    have "squeeze False ?F = ?F"
      by (intro squeeze_id) auto
    with False show ?thesis
      by (simp add: assms lines_of_output)
  qed
  ultimately show "join (squeeze False (scan patterns (split out))) = out"
    by (simp add: join_split)
  from q show "findFrom patterns (split out) 0 = []"
    by (rule findFrom_quiet)
qed

subsection \<open>The text of a match\<close>

text \<open>The text of \<open>s\<close> from position \<open>a\<close> to position \<open>b\<close>.\<close>

definition slice :: "jsstring \<Rightarrow> nat \<Rightarrow> nat \<Rightarrow> jsstring" where
  "slice s a b = take (b - a) (drop a s)"

text \<open>The texts that one item can match.\<close>

fun fits :: "atom \<Rightarrow> jsstring \<Rightarrow> bool" where
  "fits WordB x = (x = [])"
| "fits (Lit w) x = (x = w)"
| "fits (Alt ws) x = (x \<in> set ws)"
| "fits (Star c) x = list_all (inCls c) x"
| "fits (Plus c) x = (x \<noteq> [] \<and> list_all (inCls c) x)"
| "fits (Opt ch) x = (x = [] \<or> x = [ch])"

lemma slice_split: "a \<le> b \<Longrightarrow> b \<le> c \<Longrightarrow> slice s a c = slice s a b @ slice s b c"
proof -
  assume "a \<le> b" "b \<le> c"
  then have "c - a = (b - a) + (c - b)" "a + (b - a) = b" by simp_all
  then show ?thesis
    unfolding slice_def by (metis take_add drop_drop add.commute)
qed

lemma slice_same [simp]: "slice s a a = []"
  by (simp add: slice_def)

lemma slice_lit: "litAt w s i \<Longrightarrow> slice s i (i + length w) = w"
  by (simp add: slice_def litAt_def)

lemma slice_run:
  assumes "i \<le> j" and "j \<le> i + run c s i"
  shows "list_all (inCls c) (slice s i j)"
proof -
  let ?tw = "takeWhile (inCls c) (drop i s)"
  from assms have "j - i \<le> length ?tw" by (simp add: run_def)
  then have "take (j - i) (drop i s) = take (j - i) ?tw"
    by (metis takeWhile_dropWhile_id take_append diff_is_0_eq take_0 append_Nil2)
  moreover have "list_all (inCls c) ?tw"
    by (auto simp: list_all_iff dest: set_takeWhileD)
  ultimately show ?thesis
    by (auto simp: slice_def list_all_iff dest: in_set_takeD)
qed

lemma slice_fits:
  assumes "j \<in> set (ends a s i)" and "i \<le> length s"
  shows "fits a (slice s i j)"
proof (cases a)
  case WordB
  with assms show ?thesis by (auto split: if_splits)
next
  case (Lit w)
  with assms show ?thesis by (auto simp: slice_lit split: if_splits)
next
  case (Alt ws)
  with assms show ?thesis by (auto simp: slice_lit)
next
  case (Star c)
  with assms slice_run [of i j c s] show ?thesis by auto
next
  case (Plus c)
  with assms slice_run [of i j c s] run_le [of i c s] show ?thesis
    by (auto simp: slice_def)
next
  case (Opt ch)
  with assms show ?thesis
    by (auto simp: slice_def take_Suc_conv_app_nth split: if_splits)
qed

lemma match_language:
  "isPath r s i tr \<Longrightarrow> i \<le> length s \<Longrightarrow>
   \<exists>ps. slice s i (matchEnd i tr) = concat ps \<and> list_all2 fits r ps"
proof (induction r arbitrary: i tr)
  case Nil
  then show ?case by (simp add: matchEnd_def)
next
  case (Cons a r)
  from Cons.prems(1) obtain j tr' where tr: "tr = j # tr'" and j: "j \<in> set (ends a s i)"
    and p: "isPath r s j tr'"
    by auto
  from ends_bounds [OF j Cons.prems(2)] have b: "i \<le> j" "j \<le> length s" by auto
  from Cons.IH [OF p b(2)] obtain ps where ps: "slice s j (matchEnd j tr') = concat ps"
    "list_all2 fits r ps"
    by blast
  have e: "matchEnd i tr = matchEnd j tr'"
    using tr by (simp add: matchEnd_def)
  have "j \<le> matchEnd j tr'"
  proof (cases "tr' = []")
    case True
    then show ?thesis by (simp add: matchEnd_def)
  next
    case False
    then have "last tr' \<in> set tr'" by simp
    with isPath_bounds [OF p b(2)] False show ?thesis by (simp add: matchEnd_def)
  qed
  with b(1) have "slice s i (matchEnd i tr) = slice s i j @ slice s j (matchEnd j tr')"
    unfolding e by (rule slice_split)
  with ps slice_fits [OF j Cons.prems(2)]
  have "slice s i (matchEnd i tr) = concat (slice s i j # ps) \<and>
      list_all2 fits (a # r) (slice s i j # ps)"
    by simp
  then show ?case by blast
qed


lemma inCls_Space [simp]: "inCls Space = isSpace"
  by (rule ext) simp

lemma inCls_Word [simp]: "inCls Word = isWord"
  by (rule ext) simp

lemma console_shape:
  assumes "isPath (regexOf (Console ms)) s k tr" and "k \<le> length s"
  shows "\<exists>w1 w2 m w3. slice s k (matchEnd k tr) =
      [99, 111, 110, 115, 111, 108, 101] @ w1 @ [46] @ w2 @ m @ w3 @ [40] \<and>
      list_all isSpace w1 \<and> list_all isSpace w2 \<and> list_all isSpace w3 \<and> m \<in> set ms"
proof -
  from match_language [OF assms] obtain ps where
    c: "slice s k (matchEnd k tr) = concat ps" and "list_all2 fits (regexOf (Console ms)) ps"
    by blast
  then obtain w1 w2 m w3 where
    "ps = [[], [99, 111, 110, 115, 111, 108, 101], w1, [46], w2, m, w3, [40]]"
    "list_all isSpace w1" "list_all isSpace w2" "list_all isSpace w3" "m \<in> set ms"
    by (auto simp: regexOf_num list_all2_Cons1)
  with c have "slice s k (matchEnd k tr) =
      [99, 111, 110, 115, 111, 108, 101] @ w1 @ [46] @ w2 @ m @ w3 @ [40] \<and>
      list_all isSpace w1 \<and> list_all isSpace w2 \<and> list_all isSpace w3 \<and> m \<in> set ms"
    by simp
  then show ?thesis by blast
qed

lemma debugger_shape:
  assumes "isPath (regexOf Debugger) s k tr" and "k \<le> length s"
  shows "\<exists>w x. slice s k (matchEnd k tr) = [100, 101, 98, 117, 103, 103, 101, 114] @ w @ x \<and>
      list_all isSpace w \<and> (x = [] \<or> x = [59])"
proof -
  from match_language [OF assms] obtain ps where
    c: "slice s k (matchEnd k tr) = concat ps" and "list_all2 fits (regexOf Debugger) ps"
    by blast
  then obtain w x where
    "ps = [[], [100, 101, 98, 117, 103, 103, 101, 114], [], w, x]"
    "list_all isSpace w" "x = [] \<or> x = [59]"
    by (auto simp: regexOf_num list_all2_Cons1)
  with c have "slice s k (matchEnd k tr) = [100, 101, 98, 117, 103, 103, 101, 114] @ w @ x \<and>
      list_all isSpace w \<and> (x = [] \<or> x = [59])"
    by auto
  then show ?thesis by blast
qed

lemma alert_shape:
  assumes "isPath (regexOf Alert) s k tr" and "k \<le> length s"
  shows "\<exists>w. slice s k (matchEnd k tr) = [97, 108, 101, 114, 116] @ w @ [40] \<and>
      list_all isSpace w"
proof -
  from match_language [OF assms] obtain ps where
    c: "slice s k (matchEnd k tr) = concat ps" and "list_all2 fits (regexOf Alert) ps"
    by blast
  then obtain w where "ps = [[], [97, 108, 101, 114, 116], w, [40]]" "list_all isSpace w"
    by (auto simp: regexOf_num list_all2_Cons1)
  with c have "slice s k (matchEnd k tr) = [97, 108, 101, 114, 116] @ w @ [40] \<and>
      list_all isSpace w"
    by simp
  then show ?thesis by blast
qed

subsection \<open>Substrings\<close>

lemma startsWith_iff: "startsWith s p \<longleftrightarrow> (\<exists>b. s = p @ b)"
proof
  assume "startsWith s p"
  then have "s = p @ drop (length p) s"
    unfolding startsWith_def by (metis append_take_drop_id)
  then show "\<exists>b. s = p @ b" ..
next
  assume "\<exists>b. s = p @ b"
  then show "startsWith s p" by (auto simp: startsWith_def)
qed

lemma includesStr_iff: "includesStr h n \<longleftrightarrow> (\<exists>a b. h = a @ n @ b)"
proof (induction h)
  case Nil
  show ?case by auto
next
  case (Cons c cs)
  show ?case
  proof
    assume "includesStr (c # cs) n"
    then consider "startsWith (c # cs) n" | "includesStr cs n" by auto
    then show "\<exists>a b. c # cs = a @ n @ b"
    proof cases
      case 1
      then obtain b where "c # cs = [] @ n @ b" by (auto simp: startsWith_iff)
      then show ?thesis by blast
    next
      case 2
      with Cons obtain a b where "cs = a @ n @ b" by blast
      then have "c # cs = (c # a) @ n @ b" by simp
      then show ?thesis by blast
    qed
  next
    assume "\<exists>a b. c # cs = a @ n @ b"
    then obtain a b where e: "c # cs = a @ n @ b" by blast
    show "includesStr (c # cs) n"
    proof (cases a)
      case Nil
      with e have "startsWith (c # cs) n" by (auto simp: startsWith_iff)
      then show ?thesis by simp
    next
      case (Cons c' a')
      with e have "cs = a' @ n @ b" by simp
      with Cons.IH show ?thesis by auto
    qed
  qed
qed

lemma includesStr_subset: "includesStr h n \<Longrightarrow> set n \<subseteq> set h"
  by (auto simp: includesStr_iff)

lemma includesStr_sep1:
  assumes c: "c \<notin> set n" and n: "n \<noteq> []"
  shows "includesStr (x @ c # y) n \<longleftrightarrow> includesStr x n \<or> includesStr y n"
proof
  assume "includesStr (x @ c # y) n"
  then obtain a b where e: "x @ c # y = a @ n @ b"
    by (auto simp: includesStr_iff)
  then have "\<exists>us. (x = a @ us \<and> us @ c # y = n @ b) \<or> (x @ us = a \<and> c # y = us @ n @ b)"
    unfolding append_eq_append_conv2 .
  then consider us where "a = x @ us" "us @ n @ b = c # y"
    | us where "a @ us = x" "n @ b = us @ c # y"
    by metis
  then show "includesStr x n \<or> includesStr y n"
  proof cases
    case 1
    show ?thesis
    proof (cases us)
      case Nil
      with 1 n c show ?thesis by (cases n) auto
    next
      case (Cons u us')
      with 1 have "y = us' @ n @ b" by simp
      then show ?thesis by (auto simp: includesStr_iff)
    qed
  next
    case 2
    from 2(2) have "\<exists>vs. (n = us @ vs \<and> vs @ b = c # y) \<or> (n @ vs = us \<and> b = vs @ c # y)"
      unfolding append_eq_append_conv2 .
    then consider vs where "n = us @ vs" "vs @ b = c # y"
      | vs where "n @ vs = us" "b = vs @ c # y"
      by blast
    then show ?thesis
    proof cases
      case 1
      show ?thesis
      proof (cases vs)
        case Nil
        with 1 2(1) have "x = a @ n @ []" by simp
        then show ?thesis unfolding includesStr_iff by blast
      next
        case (Cons v vs')
        with 1 c show ?thesis by auto
      qed
    next
      case (2 vs)
      with \<open>a @ us = x\<close> have "x = a @ n @ vs" by simp
      then show ?thesis unfolding includesStr_iff by blast
    qed
  qed
next
  assume "includesStr x n \<or> includesStr y n"
  then show "includesStr (x @ c # y) n"
  proof
    assume "includesStr x n"
    then obtain a b where "x = a @ n @ b" by (auto simp: includesStr_iff)
    then have "x @ c # y = a @ n @ (b @ c # y)" by simp
    then show ?thesis unfolding includesStr_iff by blast
  next
    assume "includesStr y n"
    then obtain a b where "y = a @ n @ b" by (auto simp: includesStr_iff)
    then have "x @ c # y = (x @ c # a) @ n @ b" by simp
    then show ?thesis unfolding includesStr_iff by blast
  qed
qed

lemma includesStr_sep:
  assumes "set sep \<inter> set n = {}" and "sep \<noteq> []" and "n \<noteq> []"
  shows "includesStr (x @ sep @ y) n \<longleftrightarrow> includesStr x n \<or> includesStr y n"
  using assms(1,2)
proof (induction sep arbitrary: x)
  case Nil
  then show ?case by simp
next
  case (Cons c sep)
  from Cons.prems have c: "c \<notin> set n" by auto
  show ?case
  proof (cases "sep = []")
    case True
    with includesStr_sep1 [OF c assms(3), of x y] show ?thesis by simp
  next
    case False
    with Cons.IH [of "[]"] Cons.prems have
      "includesStr (sep @ y) n \<longleftrightarrow> includesStr [] n \<or> includesStr y n"
      by auto
    with includesStr_sep1 [OF c assms(3), of x "sep @ y"] assms(3) show ?thesis by auto
  qed
qed


subsection \<open>The greedy path\<close>

lemma run_exact:
  assumes "s = A @ w @ B" and "list_all (inCls c) w" and "B = [] \<or> \<not> inCls c (hd B)"
  shows "run c s (length A) = length w"
proof -
  from assms(2) have "takeWhile (inCls c) (w @ B) = w @ takeWhile (inCls c) B"
    by (simp add: takeWhile_append2 list_all_iff)
  moreover from assms(3) have "takeWhile (inCls c) B = []"
    by (cases B) auto
  ultimately show ?thesis
    by (simp add: run_def assms(1))
qed

lemma lit_step:
  assumes "s = A @ w @ B" and "matchFrom r s (length A + length w) = Some tr"
  shows "matchFrom (Lit w # r) s (length A) = Some ((length A + length w) # tr)"
  using assms by (simp add: litAt_def)

lemma star_step:
  assumes "s = A @ w @ B" and "list_all (inCls c) w" and "B = [] \<or> \<not> inCls c (hd B)"
    and "matchFrom r s (length A + length w) = Some tr"
  shows "matchFrom (Star c # r) s (length A) = Some ((length A + length w) # tr)"
proof -
  have "[length A ..< length A + length w + 1] = [length A ..< length A + length w] @ [length A + length w]"
    by simp
  then have "ends (Star c) s (length A) = (length A + length w) # rev [length A ..< length A + length w]"
    by (simp add: run_exact [OF assms(1-3)])
  with assms(4) show ?thesis by simp
qed

lemma plus_step:
  assumes "s = A @ w @ B" and "list_all (inCls c) w" and "B = [] \<or> \<not> inCls c (hd B)"
    and "w \<noteq> []" and "matchFrom r s (length A + length w) = Some tr"
  shows "matchFrom (Plus c # r) s (length A) = Some ((length A + length w) # tr)"
proof -
  from assms(4) have "length A + 1 \<le> length A + length w"
    by (cases w) auto
  then have "[length A + 1 ..< length A + length w + 1] =
      [length A + 1 ..< length A + length w] @ [length A + length w]"
    by simp
  then have "ends (Plus c) s (length A) =
      (length A + length w) # rev [length A + 1 ..< length A + length w]"
    by (simp add: run_exact [OF assms(1-3)])
  with assms(5) show ?thesis by simp
qed

lemma exec_at_0: "matchFrom r s 0 = Some tr \<Longrightarrow> exec r s 0 = Some (0, tr)"
proof -
  assume m: "matchFrom r s 0 = Some tr"
  have "[0 ..< length s + 1] = 0 # [1 ..< length s + 1]"
    by (simp add: upt_rec)
  with m show ?thesis by (simp add: exec_def)
qed

lemma methodMatch_console:
  assumes w: "list_all isSpace w1" "list_all isSpace w2" "list_all isSpace w3"
    and m: "m \<noteq> []" "list_all isWord m"
  shows "methodMatch ([99, 111, 110, 115, 111, 108, 101] @ w1 @ [46] @ w2 @ m @ w3 @ [40]) = Some m"
proof -
  let ?c = "[99, 111, 110, 115, 111, 108, 101] :: nat list"
  let ?s = "?c @ w1 @ [46] @ w2 @ m @ w3 @ [40]"
  let ?A2 = "?c @ w1" and ?A3 = "?c @ w1 @ [46]" and ?A4 = "?c @ w1 @ [46] @ w2"
  have "\<not> isWord 40" by (simp add: isWord_def)
  then have nw: "\<not> isWord (hd (w3 @ [40]))"
    using w(3) by (cases w3) (auto dest: space_not_word)
  have ns: "\<not> isSpace (hd (m @ w3 @ [40]))"
    using m by (cases m) (auto dest: space_not_word)
  have 5: "matchFrom [Plus Word] ?s (length ?A4) = Some [length ?A4 + length m]"
    using plus_step [of ?s ?A4 m "w3 @ [40]" Word "[]" "[]"] m nw by simp
  have 4: "matchFrom [Star Space, Plus Word] ?s (length ?A3) =
      Some [length ?A3 + length w2, length ?A4 + length m]"
    using star_step [of ?s ?A3 w2 "m @ w3 @ [40]" Space "[Plus Word]"] w(2) ns 5 by simp
  have 3: "matchFrom [Lit [46], Star Space, Plus Word] ?s (length ?A2) =
      Some [length ?A2 + 1, length ?A3 + length w2, length ?A4 + length m]"
    using lit_step [of ?s ?A2 "[46]" "w2 @ m @ w3 @ [40]" "[Star Space, Plus Word]"] 4 by simp
  have 2: "matchFrom [Star Space, Lit [46], Star Space, Plus Word] ?s (length ?c) =
      Some [length ?c + length w1, length ?A2 + 1, length ?A3 + length w2, length ?A4 + length m]"
    using star_step [of ?s ?c w1 "[46] @ w2 @ m @ w3 @ [40]" Space
      "[Lit [46], Star Space, Plus Word]"] w(1) 3
    by (simp add: isSpace_def)
  have 1: "matchFrom methodRe ?s 0 =
      Some [length ?c, length ?c + length w1, length ?A2 + 1, length ?A3 + length w2,
            length ?A4 + length m]"
    using lit_step [of ?s "[]" ?c "w1 @ [46] @ w2 @ m @ w3 @ [40]"
      "[Star Space, Lit [46], Star Space, Plus Word]"] 2
    by (simp add: methodRe_num)
  show ?thesis
    unfolding methodMatch_def exec_at_0 [OF 1] by simp
qed


subsection \<open>The type of a match\<close>

lemma methods_facts:
  "\<forall>m \<in> set CONSOLE_METHODS. m \<noteq> [] \<and> list_all isWord m \<and>
     \<not> includesStr m [100, 101, 98, 117, 103, 103, 101, 114] \<and>
     \<not> includesStr m [97, 108, 101, 114, 116]"
  by (simp add: CONSOLE_METHODS_num isWord_def startsWith_def)

lemma sep_disjoint:
  "\<forall>c \<in> set sep. \<not> isWord c \<Longrightarrow> list_all isWord n \<Longrightarrow> set sep \<inter> set n = {}"
  by (auto simp: list_all_iff)

lemma word_needle:
  assumes n: "n \<noteq> []" "list_all isWord n"
    and w: "list_all isSpace w1" "list_all isSpace w2" "list_all isSpace w3"
  shows "includesStr ([99, 111, 110, 115, 111, 108, 101] @ w1 @ [46] @ w2 @ m @ w3 @ [40]) n \<longleftrightarrow>
    includesStr [99, 111, 110, 115, 111, 108, 101] n \<or> includesStr m n"
proof -
  let ?c = "[99, 111, 110, 115, 111, 108, 101] :: nat list"
  have nw: "\<not> isWord 46" "\<not> isWord 40"
    by (simp_all add: isWord_def)
  have 1: "\<forall>c \<in> set (w1 @ [46] @ w2). \<not> isWord c"
    using w nw by (auto simp: list_all_iff dest: space_not_word)
  have 2: "\<forall>c \<in> set (w3 @ [40]). \<not> isWord c"
    using w nw by (auto simp: list_all_iff dest: space_not_word)
  have "includesStr (?c @ (w1 @ [46] @ w2) @ (m @ w3 @ [40])) n \<longleftrightarrow>
      includesStr ?c n \<or> includesStr (m @ w3 @ [40]) n"
    using sep_disjoint [OF 1 n(2)] n(1) by (intro includesStr_sep) auto
  moreover have "includesStr (m @ (w3 @ [40]) @ []) n \<longleftrightarrow> includesStr m n \<or> includesStr [] n"
    using sep_disjoint [OF 2 n(2)] n(1) by (intro includesStr_sep) auto
  ultimately show ?thesis using n(1) by simp
qed

lemma typeOf_console:
  assumes w: "list_all isSpace w1" "list_all isSpace w2" "list_all isSpace w3"
    and m: "m \<in> set CONSOLE_METHODS"
  shows "typeOf ([99, 111, 110, 115, 111, 108, 101] @ w1 @ [46] @ w2 @ m @ w3 @ [40]) =
    (if includesStr ([99, 111, 110, 115, 111, 108, 101] @ w1 @ [46] @ w2 @ m @ w3 @ [40])
          (str ''console.'')
     then str ''console.'' @ m else str ''unknown'')"
proof -
  let ?s = "[99, 111, 110, 115, 111, 108, 101] @ w1 @ [46] @ w2 @ m @ w3 @ [40]"
  from m methods_facts have f: "m \<noteq> []" "list_all isWord m"
    "\<not> includesStr m [100, 101, 98, 117, 103, 103, 101, 114]"
    "\<not> includesStr m [97, 108, 101, 114, 116]"
    by auto
  from methodMatch_console [OF w f(1,2)] have mm: "methodMatch ?s = Some m" .
  have d: "\<not> includesStr ?s [100, 101, 98, 117, 103, 103, 101, 114]"
    using f(3) by (subst word_needle [OF _ _ w]) (simp_all add: isWord_def startsWith_def)
  have a: "\<not> includesStr ?s [97, 108, 101, 114, 116]"
    using f(4) by (subst word_needle [OF _ _ w]) (simp_all add: isWord_def startsWith_def)
  from mm d a f(1) show ?thesis
    unfolding typeOf_num by (simp add: str_def)
qed

lemma not_includesStr:
  "c \<in> set n \<Longrightarrow> c \<notin> set h \<Longrightarrow> \<not> includesStr h n"
  using includesStr_subset [of h n] by blast

lemma typeOf_debugger:
  assumes "list_all isSpace w" and "x = [] \<or> x = [59]"
  shows "typeOf ([100, 101, 98, 117, 103, 103, 101, 114] @ w @ x) = str ''debugger''"
proof -
  let ?s = "[100, 101, 98, 117, 103, 103, 101, 114] @ w @ x"
  have "\<not> isSpace 46" by (simp add: isSpace_def)
  with assms have "46 \<notin> set ?s"
    by (auto simp: list_all_iff)
  then have "\<not> includesStr ?s [99, 111, 110, 115, 111, 108, 101, 46]"
    by (intro not_includesStr [of 46]) simp_all
  moreover have "includesStr ?s [100, 101, 98, 117, 103, 103, 101, 114]"
    by (simp add: startsWith_def)
  ultimately show ?thesis
    unfolding typeOf_num by (simp add: str_def)
qed

lemma typeOf_alert:
  assumes "list_all isSpace w"
  shows "typeOf ([97, 108, 101, 114, 116] @ w @ [40]) = str ''alert''"
proof -
  let ?s = "[97, 108, 101, 114, 116] @ w @ [40]"
  have "\<not> isSpace 46" "\<not> isSpace 100" by (simp_all add: isSpace_def)
  with assms have "46 \<notin> set ?s" "100 \<notin> set ?s"
    by (auto simp: list_all_iff)
  then have "\<not> includesStr ?s [99, 111, 110, 115, 111, 108, 101, 46]"
    "\<not> includesStr ?s [100, 101, 98, 117, 103, 103, 101, 114]"
    by (intro not_includesStr [of 46] not_includesStr [of 100]; simp)+
  moreover have "includesStr ?s [97, 108, 101, 114, 116]"
    by (simp add: startsWith_def)
  ultimately show ?thesis
    unfolding typeOf_num by (simp add: str_def)
qed

text \<open>The type that \<open>findMatches\<close> gives to the matches of each pattern.\<close>

lemma match_type:
  assumes "(k, e) \<in> set (execAll p s n)"
  shows "case p of
      Debugger \<Rightarrow> typeOf (slice s k e) = str ''debugger''
    | Alert \<Rightarrow> typeOf (slice s k e) = str ''alert''
    | Console ms \<Rightarrow> set ms \<subseteq> set CONSOLE_METHODS \<longrightarrow>
        (\<exists>m \<in> set ms. typeOf (slice s k e) = str ''console.'' @ m) \<or>
        typeOf (slice s k e) = str ''unknown''"
proof -
  from execAll_elem [OF assms] obtain tr where k: "k \<le> length s"
    and p: "isPath (regexOf p) s k tr" and e: "e = matchEnd k tr"
    by (auto dest: matchFrom_isPath)
  show ?thesis
  proof (cases p)
    case Debugger
    with debugger_shape [OF _ k, of tr] p e obtain w x where
      "slice s k e = [100, 101, 98, 117, 103, 103, 101, 114] @ w @ x"
      "list_all isSpace w" "x = [] \<or> x = [59]"
      by auto
    with typeOf_debugger [of w x] Debugger show ?thesis by simp
  next
    case Alert
    with alert_shape [OF _ k, of tr] p e obtain w where
      "slice s k e = [97, 108, 101, 114, 116] @ w @ [40]" "list_all isSpace w"
      by auto
    with typeOf_alert [of w] Alert show ?thesis by simp
  next
    case (Console ms)
    with console_shape [OF _ k, of ms tr] p e obtain w1 w2 m w3 where
      sh: "slice s k e = [99, 111, 110, 115, 111, 108, 101] @ w1 @ [46] @ w2 @ m @ w3 @ [40]"
      and w: "list_all isSpace w1" "list_all isSpace w2" "list_all isSpace w3"
      and m: "m \<in> set ms"
      by auto
    have "(\<exists>m \<in> set ms. typeOf (slice s k e) = str ''console.'' @ m) \<or>
        typeOf (slice s k e) = str ''unknown''"
      if "set ms \<subseteq> set CONSOLE_METHODS"
    proof -
      from that m have "m \<in> set CONSOLE_METHODS" by auto
      from typeOf_console [OF w this] m show ?thesis
        unfolding sh by (auto split: if_splits)
    qed
    with Console show ?thesis by simp
  qed
qed

subsection \<open>Where a match comes from\<close>

lemma lineMatches_elem:
  "m \<in> set (lineMatches patterns idx l) \<Longrightarrow>
   \<exists>p \<in> set patterns. \<exists>k e. (k, e) \<in> set (execAll p l 0) \<and>
     type m = typeOf (slice l k e) \<and> column m = k + 1 \<and> line m = idx + 1"
  by (induction patterns) (auto simp: mkMatch_def slice_def)

lemma findFrom_elem:
  "m \<in> set (findFrom patterns ls n) \<Longrightarrow>
   \<exists>l \<in> set ls. \<exists>p \<in> set patterns. \<exists>k e. (k, e) \<in> set (execAll p l 0) \<and>
     type m = typeOf (slice l k e)"
proof (induction ls arbitrary: n)
  case Nil
  then show ?case by simp
next
  case (Cons l ls)
  show ?case
  proof (cases "m \<in> set (findFrom patterns ls (n + 1))")
    case True
    from Cons.IH [OF this] show ?thesis by auto
  next
    case False
    with Cons.prems have "m \<in> set (lineMatches patterns n l)"
      by (auto split: if_splits)
    from lineMatches_elem [OF this] show ?thesis by auto
  qed
qed

lemma execAll_not_Nil: "exec (regexOf p) s n \<noteq> None \<Longrightarrow> execAll p s n \<noteq> []"
  by (subst execAll.simps) auto

lemma lineMatches_Nil: "lineMatches patterns idx l = [] \<Longrightarrow> \<not> some patterns (trim l)"
proof (induction patterns)
  case Nil
  show ?case by simp
next
  case (Cons p ps)
  then have "execAll p l 0 = []" "\<not> some ps (trim l)" by auto
  with execAll_not_Nil [of p l 0] have "\<not> test p l" "\<not> some ps (trim l)"
    by (auto simp: test_def)
  then show ?case by (simp add: test_trim)
qed

lemma findFrom_Nil: "findFrom patterns ls n = [] \<Longrightarrow> \<forall>l \<in> set ls. quiet patterns l"
  by (induction ls arbitrary: n) (auto simp: quiet_def lineMatches_Nil split: if_splits)

lemma buildPatterns_cases:
  "buildPatterns keep = [Debugger, Alert] \<or>
   buildPatterns keep = [Console (filter (\<lambda>m. m \<notin> set keep) CONSOLE_METHODS), Debugger, Alert]"
  by (simp add: buildPatterns_def Let_def)

lemma buildPatterns_all: "set CONSOLE_METHODS \<subseteq> set keep \<Longrightarrow> buildPatterns keep = [Debugger, Alert]"
proof -
  assume "set CONSOLE_METHODS \<subseteq> set keep"
  then have "filter (\<lambda>m. m \<notin> set keep) CONSOLE_METHODS = []"
    by (auto simp: filter_empty_conv)
  then show ?thesis by (simp add: buildPatterns_def)
qed

lemma console_prefix_distinct:
  "str ''debugger'' \<noteq> str ''console.'' @ M" "str ''alert'' \<noteq> str ''console.'' @ M"
  "str ''unknown'' \<noteq> str ''console.'' @ M"
  by (simp_all add: str_def)

subsection \<open>The order of the matches\<close>

text \<open>
  The matches of a line come pattern by pattern.  The type of a match tells its pattern:
  \<open>debugger\<close> and \<open>alert\<close> for these two patterns, anything else for the console pattern.
\<close>

definition matcherRank :: "jsstring \<Rightarrow> nat" where
  "matcherRank ty = (if ty = str ''debugger'' then 1 else if ty = str ''alert'' then 2 else 0)"

definition before :: "Match \<Rightarrow> Match \<Rightarrow> bool" where
  "before a b \<longleftrightarrow>
     line a < line b \<or>
     (line a = line b \<and>
      (matcherRank (type a) < matcherRank (type b) \<or>
       (matcherRank (type a) = matcherRank (type b) \<and> column a < column b)))"

fun patRank :: "pattern \<Rightarrow> nat" where
  "patRank (Console ms) = 0"
| "patRank Debugger = 1"
| "patRank Alert = 2"

fun okPattern :: "pattern \<Rightarrow> bool" where
  "okPattern (Console ms) = (set ms \<subseteq> set CONSOLE_METHODS)"
| "okPattern Debugger = True"
| "okPattern Alert = True"

lemma execAll_sorted: "sorted_wrt (<) (map fst (execAll p s n))"
proof (induction p s n rule: execAll.induct)
  case (1 p s n)
  show ?case
  proof (cases "exec (regexOf p) s n")
    case None
    then show ?thesis by (simp add: execAll.simps)
  next
    case (Some x)
    obtain k tr where x: "x = (k, tr)" by (cases x)
    from Some x have ex: "exec (regexOf p) s n = Some (k, tr)" by simp
    from pattern_exec_grows [OF ex] have g: "k < matchEnd k tr" by simp
    have "\<forall>y \<in> set (execAll p s (matchEnd k tr)). k < fst y"
      using execAll_elem [of _ _ p s "matchEnd k tr"] g by fastforce
    with "1.IH" [OF Some x [symmetric]] ex show ?thesis
      by (subst execAll.simps) simp
  qed
qed

lemma rank_of_match:
  assumes "(k, e) \<in> set (execAll p l n)" and "okPattern p"
  shows "matcherRank (type (mkMatch idx l (k, e))) = patRank p"
proof -
  have t: "type (mkMatch idx l (k, e)) = typeOf (slice l k e)"
    by (simp add: mkMatch_def slice_def)
  show ?thesis
  proof (cases p)
    case (Console ms)
    with match_type [OF assms(1)] assms(2) have
      "(\<exists>m \<in> set ms. typeOf (slice l k e) = str ''console.'' @ m) \<or>
       typeOf (slice l k e) = str ''unknown''"
      by simp
    then have "typeOf (slice l k e) \<noteq> str ''debugger''" "typeOf (slice l k e) \<noteq> str ''alert''"
      by (auto simp: str_def)
    with Console t show ?thesis by (simp add: matcherRank_def)
  next
    case Debugger
    with match_type [OF assms(1)] t show ?thesis by (simp add: matcherRank_def)
  next
    case Alert
    with match_type [OF assms(1)] t show ?thesis by (simp add: matcherRank_def str_def)
  qed
qed

lemma pattern_matches_sorted:
  assumes "okPattern p"
  shows "sorted_wrt before (map (mkMatch idx l) (execAll p l 0))"
proof -
  have r: "before (mkMatch idx l x) (mkMatch idx l y)"
    if "x \<in> set (execAll p l 0)" "y \<in> set (execAll p l 0)" "fst x < fst y" for x y
  proof -
    from that(1,2) rank_of_match [OF _ assms, of "fst x" "snd x" l 0 idx]
      rank_of_match [OF _ assms, of "fst y" "snd y" l 0 idx]
    have "matcherRank (type (mkMatch idx l x)) = matcherRank (type (mkMatch idx l y))"
      by simp
    with that(3) show ?thesis
      by (simp add: before_def mkMatch_def)
  qed
  have "sorted_wrt (\<lambda>x y. fst x < fst y) (execAll p l 0)"
    using execAll_sorted [of p l 0] by (simp add: sorted_wrt_map)
  then have "sorted_wrt (\<lambda>x y. before (mkMatch idx l x) (mkMatch idx l y)) (execAll p l 0)"
    by (rule sorted_wrt_mono_rel [rotated]) (simp add: r)
  then show ?thesis by (simp add: sorted_wrt_map)
qed

lemma lineMatches_rank:
  "m \<in> set (lineMatches ps idx l) \<Longrightarrow> \<forall>p \<in> set ps. okPattern p \<Longrightarrow>
   line m = idx + 1 \<and> (\<exists>p \<in> set ps. matcherRank (type m) = patRank p)"
proof (induction ps)
  case Nil
  then show ?case by simp
next
  case (Cons p ps)
  from Cons.prems(1) consider x where "x \<in> set (execAll p l 0)" "m = mkMatch idx l x"
    | "m \<in> set (lineMatches ps idx l)"
    by auto
  then show ?case
  proof cases
    case 1
    with rank_of_match [of "fst x" "snd x" p l 0 idx] Cons.prems(2) show ?thesis
      by (auto simp: mkMatch_def)
  next
    case 2
    with Cons.IH Cons.prems(2) show ?thesis by auto
  qed
qed

lemma lineMatches_sorted:
  "sorted_wrt (<) (map patRank ps) \<Longrightarrow> \<forall>p \<in> set ps. okPattern p \<Longrightarrow>
   sorted_wrt before (lineMatches ps idx l)"
proof (induction ps)
  case Nil
  show ?case by simp
next
  case (Cons p ps)
  have "before a b"
    if a: "a \<in> set (map (mkMatch idx l) (execAll p l 0))" and b: "b \<in> set (lineMatches ps idx l)"
    for a b
  proof -
    from a obtain x where "x \<in> set (execAll p l 0)" "a = mkMatch idx l x" by auto
    with rank_of_match [of "fst x" "snd x" p l 0 idx] Cons.prems(2)
    have ra: "matcherRank (type a) = patRank p" "line a = idx + 1"
      by (auto simp: mkMatch_def)
    from lineMatches_rank [OF b] Cons.prems(2) obtain p' where
      "p' \<in> set ps" "matcherRank (type b) = patRank p'" "line b = idx + 1"
      by auto
    with ra Cons.prems(1) show ?thesis
      by (auto simp: before_def)
  qed
  with Cons pattern_matches_sorted [of p idx l] show ?case
    by (simp add: sorted_wrt_append)
qed

lemma findFrom_sorted:
  "sorted_wrt (<) (map patRank ps) \<Longrightarrow> \<forall>p \<in> set ps. okPattern p \<Longrightarrow>
   sorted_wrt before (findFrom ps ls n)"
proof (induction ls arbitrary: n)
  case Nil
  show ?case by simp
next
  case (Cons l ls)
  have "before a b"
    if a: "a \<in> set (lineMatches ps n l)" and b: "b \<in> set (findFrom ps ls (n + 1))" for a b
  proof -
    from lineMatches_rank [OF a Cons.prems(2)] have "line a = n + 1" by simp
    moreover from findFrom_line [OF b] have "n + 1 < line b" by simp
    ultimately show ?thesis by (simp add: before_def)
  qed
  with Cons lineMatches_sorted [of ps n l] show ?case
    by (simp add: sorted_wrt_append)
qed

lemma buildPatterns_ranked:
  "sorted_wrt (<) (map patRank (buildPatterns keep)) \<and> (\<forall>p \<in> set (buildPatterns keep). okPattern p)"
  using buildPatterns_cases [of keep] by auto

section \<open>The lines the main loop reads\<close>

text \<open>
  The index \<open>i\<close> of the main loop of \<open>removeStatements\<close> does not visit every line: on a
  line that opens a block, the inner loop and the step over a lone semicolon move \<open>i\<close> past
  the lines they consume, and the body of the main loop never runs for them.
  \<open>readBy patterns ls\<close> has \<open>True\<close> at the lines for which the body of the main loop runs
  and \<open>False\<close> at the lines consumed inside a block.  \<open>keptLines\<close> are the lines that are
  read and on which no pattern matches outside comments: they are what the main loop
  pushes to \<open>result\<close>.
\<close>

function readBy :: "pattern list \<Rightarrow> jsstring list \<Rightarrow> bool list" where
  "readBy patterns [] = []"
| "readBy patterns (l # ls) =
     True #
       (if opensBlock patterns l then
          replicate (length ls - length (dropSemicolon (afterBlock (depthOf l) ls))) False @
            readBy patterns (dropSemicolon (afterBlock (depthOf l) ls))
        else readBy patterns ls)"
  by pat_completeness auto
termination
proof (relation "measure (\<lambda>(patterns, ls). length ls)")
  fix patterns :: "pattern list" and l :: jsstring and ls :: "jsstring list"
  have "length (dropSemicolon (afterBlock (depthOf l) ls)) \<le> length ls"
    using dropSemicolon_length afterBlock_length by (rule le_trans)
  then show "((patterns, dropSemicolon (afterBlock (depthOf l) ls)), (patterns, l # ls))
      \<in> measure (\<lambda>(patterns, ls). length ls)"
    by simp
qed auto

declare readBy.simps [simp del]

definition keptLines :: "pattern list \<Rightarrow> jsstring list \<Rightarrow> jsstring list" where
  "keptLines patterns ls =
     map fst (filter (\<lambda>(l, r). r \<and> quiet patterns l) (zip ls (readBy patterns ls)))"

lemma rest_length:
  "length (dropSemicolon (afterBlock d ls)) \<le> length ls"
  using dropSemicolon_length afterBlock_length by (rule le_trans)

lemma readBy_length: "length (readBy patterns ls) = length ls"
proof (induction patterns ls rule: readBy.induct)
  case (1 patterns)
  show ?case by (simp add: readBy.simps)
next
  case (2 patterns l ls)
  show ?case
  proof (cases "opensBlock patterns l")
    case True
    with "2.IH"(1) rest_length [of "depthOf l" ls] show ?thesis
      by (simp add: readBy.simps)
  next
    case False
    with "2.IH"(2) show ?thesis by (simp add: readBy.simps)
  qed
qed

lemma afterBlock_suffix: "afterBlock d ls = drop (length ls - length (afterBlock d ls)) ls"
proof (induction ls arbitrary: d)
  case Nil
  show ?case by simp
next
  case (Cons l ls)
  show ?case
  proof (cases "d > 0")
    case True
    with Cons [of "d + depthOf l"] afterBlock_length [of "d + depthOf l" ls] show ?thesis
      by (simp add: Suc_diff_le algebra_simps)
  next
    case False
    then show ?thesis by simp
  qed
qed

lemma dropSemicolon_suffix: "dropSemicolon ls = drop (length ls - length (dropSemicolon ls)) ls"
  by (cases ls) (auto simp: dropSemicolon.simps)

lemma rest_suffix:
  "dropSemicolon (afterBlock d ls) =
     drop (length ls - length (dropSemicolon (afterBlock d ls))) ls"
proof -
  let ?a = "afterBlock d ls" and ?r = "dropSemicolon (afterBlock d ls)"
  have "?r = drop (length ?a - length ?r) ?a" by (rule dropSemicolon_suffix)
  also have "\<dots> = drop (length ?a - length ?r) (drop (length ls - length ?a) ls)"
    using afterBlock_suffix [of d ls] by simp
  also have "\<dots> = drop (length ls - length ?r) ls"
    using afterBlock_length [of d ls] dropSemicolon_length [of ?a] by simp
  finally show ?thesis .
qed

lemma filter_zip_replicate_False:
  "length xs = n \<Longrightarrow> filter (\<lambda>(l, r). r \<and> Q l) (zip (xs @ ys) (replicate n False @ rs)) =
     filter (\<lambda>(l, r). r \<and> Q l) (zip ys rs)"
  by (induction xs arbitrary: n) auto

lemma scan_keptLines: "scan patterns ls = keptLines patterns ls"
proof (induction patterns ls rule: scan.induct)
  case (1 patterns)
  show ?case by (simp add: scan.simps readBy.simps keptLines_def)
next
  case (2 patterns l ls)
  let ?rest = "dropSemicolon (afterBlock (depthOf l) ls)"
  show ?case
  proof (cases "opensBlock patterns l")
    case True
    let ?k = "length ls - length ?rest"
    from True "2.IH"(3) have IH: "scan patterns ?rest = keptLines patterns ?rest"
      by (simp add: opensBlock_def)
    have "ls = take ?k ls @ drop ?k ls" by simp
    also have "drop ?k ls = ?rest" by (rule rest_suffix [symmetric])
    finally have ls: "ls = take ?k ls @ ?rest" .
    have "length (take ?k ls) = ?k" by simp
    from filter_zip_replicate_False [OF this, of "quiet patterns" ?rest "readBy patterns ?rest"] ls
    have "filter (\<lambda>(l, r). r \<and> quiet patterns l) (zip ls (replicate ?k False @ readBy patterns ?rest)) =
        filter (\<lambda>(l, r). r \<and> quiet patterns l) (zip ?rest (readBy patterns ?rest))"
      by simp
    moreover from True have "\<not> quiet patterns l"
      by (simp add: opensBlock_def quiet_def)
    ultimately have "keptLines patterns (l # ls) = keptLines patterns ?rest"
      using True by (simp add: keptLines_def readBy.simps)
    with IH True show ?thesis
      by (simp add: scan_block)
  next
    case False
    then have "isComment (trim l) \<or> wholeLine patterns (trim l) \<or>
        \<not> (some patterns (trim l) \<and> openParens l > closeParens l)"
      by (auto simp: opensBlock_def)
    with "2.IH"(1,2,4,5) have IH: "scan patterns ls = keptLines patterns ls"
      by auto
    have "scan patterns (l # ls) = (if quiet patterns l then l # scan patterns ls else scan patterns ls)"
      using False wholeLine_some [of patterns "trim l"]
      by (auto simp: scan.simps quiet_def opensBlock_def)
    with IH False show ?thesis
      by (simp add: keptLines_def readBy.simps)
  qed
qed


lemma removeStatements_keptLines:
  "removeStatements src patterns = Inr (join (squeeze False (keptLines patterns (split src))))"
  by (simp add: removeStatements_eq scan_keptLines)

lemma afterBlock_Nil_iff: "afterBlock d p = [] \<longleftrightarrow> staysOpen d p"
  by (induction p arbitrary: d) (auto simp: algebra_simps)

lemma afterBlock_append:
  "afterBlock d (p @ xs) =
     (if staysOpen d p then afterBlock (depthAfter d p) xs else afterBlock d p @ xs)"
  by (induction p arbitrary: d) (auto simp: algebra_simps)

lemma dropSemicolon_append: "q \<noteq> [] \<Longrightarrow> dropSemicolon (q @ xs) = dropSemicolon q @ xs"
  by (cases q) (auto simp: dropSemicolon.simps)

lemma rest_full:
  assumes "length xs \<le> length (dropSemicolon (afterBlock d xs))"
  shows "dropSemicolon (afterBlock d xs) = xs"
proof -
  from assms rest_length [of d xs] have "length (dropSemicolon (afterBlock d xs)) = length xs"
    by simp
  with rest_suffix [of d xs] show ?thesis by simp
qed

lemma read_split:
  "xs \<noteq> [] \<Longrightarrow> readBy patterns (pre @ xs) ! length pre \<Longrightarrow>
   readBy patterns (pre @ xs) = readBy patterns pre @ readBy patterns xs \<and>
   scan patterns (pre @ xs) = scan patterns pre @ scan patterns xs"
proof (induction patterns pre rule: readBy.induct)
  case (1 patterns)
  show ?case by (simp add: readBy.simps scan.simps)
next
  case (2 patterns l pre)
  let ?d = "depthOf l"
  show ?case
  proof (cases "opensBlock patterns l")
    case False
    with "2.prems" have "readBy patterns (pre @ xs) ! length pre"
      by (simp add: readBy.simps)
    from "2.IH"(2) [OF False "2.prems"(1) this] have
      IH: "readBy patterns (pre @ xs) = readBy patterns pre @ readBy patterns xs"
        "scan patterns (pre @ xs) = scan patterns pre @ scan patterns xs"
      by auto
    have "scan patterns (l # ys) = (if quiet patterns l then l # scan patterns ys else scan patterns ys)"
      for ys
      using False wholeLine_some [of patterns "trim l"]
      by (auto simp: scan.simps quiet_def opensBlock_def)
    with IH False show ?thesis
      by (simp add: readBy.simps)
  next
    case True
    let ?R = "dropSemicolon (afterBlock ?d (pre @ xs))"
    let ?k = "length (pre @ xs) - length ?R"
    from True "2.prems"(2) have r: "(replicate ?k False @ readBy patterns ?R) ! length pre"
      by (simp add: readBy.simps)
    have k: "?k \<le> length pre"
    proof (rule ccontr)
      assume "\<not> ?k \<le> length pre"
      then have "(replicate ?k False @ readBy patterns ?R) ! length pre = False"
        by (simp add: nth_append)
      with r show False by simp
    qed
    with r have r': "readBy patterns ?R ! (length pre - ?k)"
      by (simp add: nth_append)
    from k rest_length [of ?d "pre @ xs"] have len: "length xs \<le> length ?R"
      by simp
    show ?thesis
    proof (cases "staysOpen ?d pre")
      case so: True
      then have R: "?R = dropSemicolon (afterBlock (depthAfter ?d pre) xs)"
        by (simp add: afterBlock_append)
      with len have "?R = xs"
        using rest_full [of xs "depthAfter ?d pre"] by simp
      moreover from so have "afterBlock ?d pre = []"
        by (simp add: afterBlock_Nil_iff)
      ultimately show ?thesis
        using True by (simp add: readBy.simps scan_block dropSemicolon.simps scan.simps(1))
    next
      case False
      let ?q = "afterBlock ?d pre" and ?p = "dropSemicolon (afterBlock ?d pre)"
      from False have q: "?q \<noteq> []" by (simp add: afterBlock_Nil_iff)
      with False have R: "?R = ?p @ xs"
        by (simp add: afterBlock_append dropSemicolon_append)
      have lp: "length ?p \<le> length pre" by (rule rest_length)
      with R have "length pre - ?k = length ?p" by simp
      with r' R have "readBy patterns (?p @ xs) ! length ?p" by simp
      from "2.IH"(1) [OF True "2.prems"(1) this] have
        IH: "readBy patterns (?p @ xs) = readBy patterns ?p @ readBy patterns xs"
          "scan patterns (?p @ xs) = scan patterns ?p @ scan patterns xs"
        by auto
      from R lp have "?k = length pre - length ?p" by simp
      with IH R True show ?thesis
        by (simp add: readBy.simps scan_block)
    qed
  qed
qed

lemma readBy_no_opener:
  "\<forall>l \<in> set pre. \<not> opensBlock patterns l \<Longrightarrow>
   readBy patterns (pre @ rest) = replicate (length pre) True @ readBy patterns rest"
  by (induction pre) (simp_all add: readBy.simps)

lemma readBy_block:
  "opensBlock patterns first \<Longrightarrow> staysOpen (depthOf first) body \<Longrightarrow>
   depthAfter (depthOf first) body = 0 \<Longrightarrow>
   readBy patterns (first # body @ rest) =
     True # replicate (length body + (length rest - length (dropSemicolon rest))) False @
       readBy patterns (dropSemicolon rest)"
proof -
  assume o: "opensBlock patterns first" and "staysOpen (depthOf first) body"
    "depthAfter (depthOf first) body = 0"
  then have "afterBlock (depthOf first) (body @ rest) = rest"
    by (simp add: afterBlock_closed)
  moreover have "length (dropSemicolon rest) \<le> length rest"
    by (rule dropSemicolon_length)
  ultimately show ?thesis
    using o by (simp add: readBy.simps)
qed

lemma zip_nth_upt:
  "length rs = length ls \<Longrightarrow> zip ls rs = map (\<lambda>i. (ls ! i, rs ! i)) [0 ..< length ls]"
  by (intro nth_equalityI) auto

lemma keptLines_index:
  "keptLines patterns ls =
     map ((!) ls) (filter (\<lambda>i. readBy patterns ls ! i \<and> quiet patterns (ls ! i)) [0 ..< length ls])"
  by (simp add: keptLines_def zip_nth_upt [OF readBy_length] filter_map comp_def case_prod_beta)

lemma findFrom_set:
  "m \<in> set (findFrom patterns ls n) \<longleftrightarrow>
     (\<exists>i < length ls. \<not> isComment (trim (ls ! i)) \<and> m \<in> set (lineMatches patterns (n + i) (ls ! i)))"
proof (induction ls arbitrary: n)
  case Nil
  show ?case by simp
next
  case (Cons l ls)
  have "(\<exists>i < Suc (length ls). Q i) \<longleftrightarrow> Q 0 \<or> (\<exists>i < length ls. Q (Suc i))" for Q
    by (auto simp: less_Suc_eq_0_disj)
  with Cons [of "n + 1"] show ?case by auto
qed

lemma lineMatches_some: "lineMatches patterns idx l \<noteq> [] \<longleftrightarrow> some patterns (trim l)"
  using lineMatches_quiet [of patterns l idx] lineMatches_Nil [of patterns idx l] by blast

lemma line_has_match:
  assumes "i < length ls"
  shows "(\<exists>m \<in> set (findFrom patterns ls n). line m = n + i + 1) \<longleftrightarrow> \<not> quiet patterns (ls ! i)"
proof
  assume "\<exists>m \<in> set (findFrom patterns ls n). line m = n + i + 1"
  then obtain m j where l: "line m = n + i + 1" and j: "j < length ls"
    "\<not> isComment (trim (ls ! j))" "m \<in> set (lineMatches patterns (n + j) (ls ! j))"
    by (auto simp: findFrom_set)
  from lineMatches_line [OF j(3)] l have "j = i" by simp
  with j lineMatches_some [of patterns "n + i" "ls ! i"] show "\<not> quiet patterns (ls ! i)"
    by (auto simp: quiet_def)
next
  assume "\<not> quiet patterns (ls ! i)"
  then have c: "\<not> isComment (trim (ls ! i))" and "lineMatches patterns (n + i) (ls ! i) \<noteq> []"
    by (simp_all add: quiet_def lineMatches_some)
  then obtain m where m: "m \<in> set (lineMatches patterns (n + i) (ls ! i))"
    by (cases "lineMatches patterns (n + i) (ls ! i)") auto
  with c assms have "m \<in> set (findFrom patterns ls n)"
    by (auto simp: findFrom_set)
  with lineMatches_line [OF m] show "\<exists>m \<in> set (findFrom patterns ls n). line m = n + i + 1"
    by auto
qed

lemma keptLines_matches:
  "keptLines patterns (split src) =
     map ((!) (split src))
       (filter (\<lambda>i. readBy patterns (split src) ! i \<and>
                    (\<forall>m \<in> set (findMatches src patterns). line m \<noteq> i + 1))
          [0 ..< length (split src)])"
proof -
  have "quiet patterns (split src ! i) \<longleftrightarrow> (\<forall>m \<in> set (findMatches src patterns). line m \<noteq> i + 1)"
    if "i < length (split src)" for i
    using line_has_match [OF that, of patterns 0] by (auto simp: findMatches_def)
  then show ?thesis
    unfolding keptLines_index by (intro arg_cong [where f = "map ((!) (split src))"] filter_cong) auto
qed

lemmas ev2 = ev readBy.simps keptLines_def


section \<open>The claims\<close>

text \<open>
  Claim C8.  \<open>removeStatements\<close> never raises: for every input and every list of patterns
  both loops end and no array is read out of range, so a string is returned.  In the worst
  case, when a line opens a statement of several lines and the depth of the parentheses
  stays positive up to the last line, everything from that line on is consumed and the
  result is what was kept before it.
\<close>

theorem removeStatements_never_raises:
  "\<exists>out. removeStatements src patterns = Inr out \<and>
     (split src = pre @ first # rest \<and> (\<forall>l \<in> set pre. quiet patterns l) \<and>
      opensBlock patterns first \<and> staysOpen (depthOf first) rest \<longrightarrow>
      out = join (squeeze False pre))"
proof -
  have "join (squeeze False (scan patterns (split src))) = join (squeeze False pre)"
    if "split src = pre @ first # rest" "\<forall>l \<in> set pre. quiet patterns l"
      "opensBlock patterns first" "staysOpen (depthOf first) rest"
    using that
    by (simp add: scan_quiet scan_block afterBlock_open scan.simps(1) dropSemicolon.simps)
  then show ?thesis
    by (auto simp: removeStatements_eq)
qed

theorem removeStatements_never_raises_witness:
  "split (str ''x\<newline>console.log(\<newline>y'') = [str ''x''] @ str ''console.log('' # [str ''y'']
   \<and> quiet [Console CONSOLE_METHODS, Debugger, Alert] (str ''x'')
   \<and> opensBlock [Console CONSOLE_METHODS, Debugger, Alert] (str ''console.log('')
   \<and> staysOpen (depthOf (str ''console.log('')) [str ''y'']
   \<and> removeStatements (str ''x\<newline>console.log(\<newline>y'')
         [Console CONSOLE_METHODS, Debugger, Alert] = Inr (str ''x'')"
proof -
  let ?P = "[Console CONSOLE_METHODS, Debugger, Alert]"
  let ?src = "str ''x\<newline>console.log(\<newline>y''"
  have 1: "split ?src = [str ''x''] @ str ''console.log('' # [str ''y'']"
    by (simp add: str_def)
  have 2: "quiet ?P (str ''x'')"
    by (simp add: ev cong: firstSome_cong)
  have 3: "opensBlock ?P (str ''console.log('')"
    by (simp add: ev CONSOLE_METHODS_num cong: firstSome_cong)
  have 4: "staysOpen (depthOf (str ''console.log('')) [str ''y'']"
    by (simp add: ev)
  from removeStatements_never_raises
    [of ?src ?P "[str ''x'']" "str ''console.log(''" "[str ''y'']"]
  obtain out where o: "removeStatements ?src ?P = Inr out" and
    imp: "split ?src = [str ''x''] @ str ''console.log('' # [str ''y''] \<and>
        (\<forall>l \<in> set [str ''x'']. quiet ?P l) \<and>
        opensBlock ?P (str ''console.log('') \<and>
        staysOpen (depthOf (str ''console.log('')) [str ''y''] \<longrightarrow>
        out = join (squeeze False [str ''x''])"
    by blast
  from 1 2 3 4 imp have "out = join (squeeze False [str ''x''])"
    by simp
  then have "out = str ''x''"
    by (simp add: ev)
  with o 1 2 3 4 show ?thesis by simp
qed

text \<open>
  Claim C10.  The output of \<open>removeStatements\<close> has no two consecutive blank lines, for
  every input and every list of patterns; runs of blank lines that were already in the
  input are collapsed too, so an input in which \<open>findMatches\<close> finds nothing can still be
  changed: three lines \<open>a\<close>, blank, blank, \<open>b\<close> lose one blank line.
\<close>

theorem blank_lines_collapsed:
  "(\<exists>out. removeStatements src patterns = Inr out \<and> noBlankPair (split out)) \<and>
   removeStatements (str ''a\<newline>\<newline>\<newline>b'') (buildPatterns []) = Inr (str ''a\<newline>\<newline>b'') \<and>
   findMatches (str ''a\<newline>\<newline>\<newline>b'') (buildPatterns []) = []"
proof -
  let ?F = "squeeze False (scan patterns (split src))"
  have "noBlankPair (split (join ?F))"
  proof (cases "?F = []")
    case True
    then show ?thesis by simp
  next
    case False
    have "\<forall>l \<in> set ?F. 10 \<notin> set l"
      using squeeze_subset scan_kept split_no_newline by blast
    with False have "split (join ?F) = ?F"
      by (rule split_join)
    then show ?thesis
      by (simp add: squeeze_noBlankPair)
  qed
  then have "\<exists>out. removeStatements src patterns = Inr out \<and> noBlankPair (split out)"
    by (simp add: removeStatements_eq)
  with blank_run_removed blank_run_no_match show ?thesis
    by (simp only: buildPatterns_Nil simp_thms)
qed


text \<open>
  Claim C9.  On the two lines \<open>console.log("hi");\<close> and \<open>const x = 1;\<close>, with the
  patterns of an empty keep list, \<open>findMatches\<close> returns exactly one match, at line 1 and
  column 1 with the type \<open>console.log\<close>, and \<open>removeStatements\<close> returns
  \<open>const x = 1;\<close>.
\<close>

theorem scenario_console_log:
  "findMatches (str ''console.log(\"hi\");\<newline>const x = 1;'') (buildPatterns []) =
     [\<lparr>file = [], line = 1, column = 1, type = str ''console.log'',
       content = str ''console.log(\"hi\");''\<rparr>] \<and>
   removeStatements (str ''console.log(\"hi\");\<newline>const x = 1;'') (buildPatterns []) =
     Inr (str ''const x = 1;'')"
  by (simp add: buildPatterns_Nil ev CONSOLE_METHODS_num cong: firstSome_cong)

text \<open>
  Claim C5.  The type of a match is meant to be \<open>console.<method>\<close>, \<open>debugger\<close> or
  \<open>alert\<close>.  The console pattern allows white space before the dot, but the type is only
  computed when the matched text contains \<open>console.\<close> without a space: on
  \<open>console .log(1)\<close> the match gets the type \<open>unknown\<close>.
\<close>

theorem unknown_kind:
  "map type (findMatches (str ''console .log(1)'') (buildPatterns [])) = [str ''unknown'']"
  by (simp add: buildPatterns_Nil ev CONSOLE_METHODS_num cong: firstSome_cong)

text \<open>
  Claim C2, as stated, fails: a commented line between the first line of a statement of
  several lines and the line that closes its parentheses is consumed with the statement.
\<close>

theorem comment_in_block_removed:
  "split (str ''console.log(\<newline>// note\<newline>);'') =
     [str ''console.log('', str ''// note'', str '');''] \<and>
   isComment (trim (str ''// note'')) \<and>
   removeStatements (str ''console.log(\<newline>// note\<newline>);'') (buildPatterns []) = Inr []"
  by (simp add: buildPatterns_Nil ev CONSOLE_METHODS_num cong: firstSome_cong)

text \<open>
  Claim C2, amended.  A commented line never contributes a match: every match of
  \<open>findMatches\<close> is on a line that is not commented.  \<open>removeStatements\<close> never alters a
  commented line, and it deletes one only inside a block, that is among the lines that the
  inner loop and the step over a lone semicolon consume after a line that opens a block:
  the commented lines of the output are, verbatim and in order, the commented lines of
  the input that the main loop reads.
\<close>

theorem comment_lines:
  "(\<forall>m \<in> set (findMatches src patterns).
      1 \<le> line m \<and> line m \<le> length (split src) \<and>
      \<not> isComment (trim (split src ! (line m - 1)))) \<and>
   (\<exists>out. removeStatements src patterns = Inr out \<and>
      filter (\<lambda>l. isComment (trim l)) (split out) =
      map fst (filter (\<lambda>(l, r). r \<and> isComment (trim l))
        (zip (split src) (readBy patterns (split src)))))"
proof -
  let ?K = "keptLines patterns (split src)"
  let ?F = "squeeze False (scan patterns (split src))"
  let ?C = "\<lambda>l. isComment (trim l)"
  have a: "\<forall>m \<in> set (findMatches src patterns).
      1 \<le> line m \<and> line m \<le> length (split src) \<and>
      \<not> isComment (trim (split src ! (line m - 1)))"
  proof
    fix m
    assume "m \<in> set (findMatches src patterns)"
    then have "m \<in> set (findFrom patterns (split src) 0)"
      by (simp add: findMatches_def)
    from findFrom_line [OF this] show "1 \<le> line m \<and> line m \<le> length (split src) \<and>
      \<not> isComment (trim (split src ! (line m - 1)))"
      by (simp add: Suc_le_eq)
  qed
  have "\<not> ?C []"
    by (auto simp: trim_def dest: isComment_not_blank)
  then have "filter ?C (split (join ?F)) = filter ?C ?F"
    by (simp add: lines_of_output)
  also have "\<dots> = filter ?C ?K"
    unfolding scan_keptLines by (rule squeeze_filter) (simp add: isComment_not_blank)
  also have "\<dots> = map fst (filter (\<lambda>(l, r). r \<and> ?C l) (zip (split src) (readBy patterns (split src))))"
    unfolding keptLines_def filter_map filter_filter
    by (intro arg_cong [where f = "map fst"] filter_cong) (auto simp: quiet_def)
  finally have "filter ?C (split (join ?F)) =
      map fst (filter (\<lambda>(l, r). r \<and> ?C l) (zip (split src) (readBy patterns (split src))))" .
  with a show ?thesis
    by (simp add: removeStatements_eq)
qed

theorem comment_lines_witness:
  "findMatches (str ''console.log(\<newline>// note\<newline>);\<newline>// keep me\<newline>x = 1;'')
     [Console CONSOLE_METHODS, Debugger, Alert] =
     [\<lparr>file = [], line = 1, column = 1, type = str ''console.log'',
       content = str ''console.log(''\<rparr>] \<and>
   \<not> isComment (trim (split (str ''console.log(\<newline>// note\<newline>);\<newline>// keep me\<newline>x = 1;'') ! (1 - 1))) \<and>
   readBy [Console CONSOLE_METHODS, Debugger, Alert]
     (split (str ''console.log(\<newline>// note\<newline>);\<newline>// keep me\<newline>x = 1;'')) =
     [True, False, False, True, True] \<and>
   (\<exists>out. removeStatements (str ''console.log(\<newline>// note\<newline>);\<newline>// keep me\<newline>x = 1;'')
            [Console CONSOLE_METHODS, Debugger, Alert] = Inr out \<and>
      filter (\<lambda>l. isComment (trim l)) (split out) = [str ''// keep me''])"
proof -
  let ?P = "[Console CONSOLE_METHODS, Debugger, Alert]"
  let ?src = "str ''console.log(\<newline>// note\<newline>);\<newline>// keep me\<newline>x = 1;''"
  let ?m = "\<lparr>file = [], line = 1, column = 1, type = str ''console.log'',
       content = str ''console.log(''\<rparr>"
  have fm: "findMatches ?src ?P = [?m]"
    by (simp add: ev CONSOLE_METHODS_num cong: firstSome_cong)
  have sp: "split ?src = [str ''console.log('', str ''// note'', str '');'', str ''// keep me'',
      str ''x = 1;'']"
    by (simp add: str_def)
  have cm: "isComment (trim (str ''// note''))" "isComment (trim (str ''// keep me''))"
    "\<not> isComment (trim (str ''console.log(''))" "\<not> isComment (trim (str '');''))"
    "\<not> isComment (trim (str ''x = 1;''))"
    by (simp_all add: ev)
  have rb: "readBy ?P (split ?src) = [True, False, False, True, True]"
    by (simp add: ev2 CONSOLE_METHODS_num cong: firstSome_cong)
  note T = comment_lines [of ?src ?P]
  from T fm have a: "\<not> isComment (trim (split ?src ! (line ?m - 1)))"
    by simp
  from T obtain out where out: "removeStatements ?src ?P = Inr out"
    and f: "filter (\<lambda>l. isComment (trim l)) (split out) =
      map fst (filter (\<lambda>(l, r). r \<and> isComment (trim l)) (zip (split ?src) (readBy ?P (split ?src))))"
    by blast
  from f have "filter (\<lambda>l. isComment (trim l)) (split out) = [str ''// keep me'']"
    unfolding rb unfolding sp by (simp add: cm)
  with fm a rb out show ?thesis by auto
qed

text \<open>
  Claim C4, as stated, fails.  Besides the lines of the statement, the second loop drops a
  blank line that has become the neighbour of another blank line.  When the three
  replacements leave nothing of the first line of the call, as for \<open>console.log(f(x)\<close>,
  only that line is dropped and the rest of the call stays.  When the call lies inside an
  earlier block whose parentheses never close, the lines after the call are dropped too.
\<close>

theorem multiline_claim_fails:
  "removeStatements (str ''a\<newline>\<newline>console.log(\<newline>1\<newline>);\<newline>\<newline>b'') (buildPatterns []) =
     Inr (str ''a\<newline>\<newline>b'') \<and>
   removeStatements (str ''console.log(f(x)\<newline>  + 1);\<newline>keep();'') (buildPatterns []) =
     Inr (str ''  + 1);\<newline>keep();'') \<and>
   removeStatements (str ''alert((\<newline>console.log(\<newline>1\<newline>);\<newline>keep();'') (buildPatterns []) =
     Inr []"
  by (simp add: buildPatterns_Nil ev CONSOLE_METHODS_num cong: firstSome_cong)

text \<open>
  Claim C4, amended.  Let the input consist of lines \<open>pre\<close>, a line \<open>first\<close> that the
  main loop reads and that opens a block (it is not commented, a pattern matches it, the
  three replacements leave something of it, and it has more \<open>(\<close> than \<open>)\<close>), lines
  \<open>body\<close> before each of which the depth is positive and after which it is 0, and lines
  \<open>rest\<close>.  Then \<open>removeStatements\<close> drops \<open>first\<close> and \<open>body\<close>, and the first line of
  \<open>rest\<close> when it is a lone semicolon; what it keeps of \<open>pre\<close> and of the remaining
  lines of \<open>rest\<close> is what the main loop keeps of each of them alone, and of these lines
  the second loop drops the blank lines that follow a blank line.
\<close>

theorem multiline_statement_removed:
  "\<exists>out. removeStatements src patterns = Inr out \<and>
     (split src = pre @ first # body @ rest \<and> readBy patterns (split src) ! length pre \<and>
      opensBlock patterns first \<and> staysOpen (depthOf first) body \<and>
      depthAfter (depthOf first) body = 0 \<longrightarrow>
      out = join (squeeze False (keptLines patterns pre @ keptLines patterns (dropSemicolon rest))))"
proof -
  have "scan patterns (split src) = keptLines patterns pre @ keptLines patterns (dropSemicolon rest)"
    if sp: "split src = pre @ first # body @ rest"
      and r: "readBy patterns (split src) ! length pre"
      and o: "opensBlock patterns first" and st: "staysOpen (depthOf first) body"
      and d: "depthAfter (depthOf first) body = 0"
  proof -
    from r sp have "scan patterns (pre @ first # body @ rest) =
        scan patterns pre @ scan patterns (first # body @ rest)"
      using read_split [of "first # body @ rest" patterns pre] by simp
    moreover from st d have "afterBlock (depthOf first) (body @ rest) = rest"
      by (simp add: afterBlock_closed)
    ultimately have "scan patterns (split src) = scan patterns pre @ scan patterns (dropSemicolon rest)"
      using sp o by (simp add: scan_block)
    then show ?thesis
      by (simp add: scan_keptLines)
  qed
  then show ?thesis
    by (auto simp: removeStatements_eq)
qed

theorem multiline_statement_removed_witness:
  "split (str ''a();\<newline>debugger;\<newline>console.log(\<newline>1\<newline>);\<newline>;\<newline>alert(2)\<newline>keep();'') =
     [str ''a();'', str ''debugger;''] @ str ''console.log('' # [str ''1'', str '');''] @
       [str '';'', str ''alert(2)'', str ''keep();''] \<and>
   readBy [Console CONSOLE_METHODS, Debugger, Alert]
     (split (str ''a();\<newline>debugger;\<newline>console.log(\<newline>1\<newline>);\<newline>;\<newline>alert(2)\<newline>keep();'')) =
     [True, True, True, False, False, False, True, True] \<and>
   opensBlock [Console CONSOLE_METHODS, Debugger, Alert] (str ''console.log('') \<and>
   staysOpen (depthOf (str ''console.log('')) [str ''1'', str '');''] \<and>
   depthAfter (depthOf (str ''console.log('')) [str ''1'', str '');''] = 0 \<and>
   keptLines [Console CONSOLE_METHODS, Debugger, Alert] [str ''a();'', str ''debugger;''] =
     [str ''a();''] \<and>
   keptLines [Console CONSOLE_METHODS, Debugger, Alert]
     (dropSemicolon [str '';'', str ''alert(2)'', str ''keep();'']) = [str ''keep();''] \<and>
   removeStatements (str ''a();\<newline>debugger;\<newline>console.log(\<newline>1\<newline>);\<newline>;\<newline>alert(2)\<newline>keep();'')
     [Console CONSOLE_METHODS, Debugger, Alert] = Inr (str ''a();\<newline>keep();'')"
proof -
  let ?P = "[Console CONSOLE_METHODS, Debugger, Alert]"
  let ?src = "str ''a();\<newline>debugger;\<newline>console.log(\<newline>1\<newline>);\<newline>;\<newline>alert(2)\<newline>keep();''"
  let ?pre = "[str ''a();'', str ''debugger;'']"
  let ?body = "[str ''1'', str '');'']"
  let ?rest = "[str '';'', str ''alert(2)'', str ''keep();'']"
  have 1: "split ?src = ?pre @ str ''console.log('' # ?body @ ?rest"
    by (simp add: str_def)
  have 2: "readBy ?P (split ?src) = [True, True, True, False, False, False, True, True]"
    by (simp add: ev2 CONSOLE_METHODS_num cong: firstSome_cong)
  have 3: "opensBlock ?P (str ''console.log('')"
    by (simp add: ev CONSOLE_METHODS_num cong: firstSome_cong)
  have 4: "staysOpen (depthOf (str ''console.log('')) ?body"
    "depthAfter (depthOf (str ''console.log('')) ?body = 0"
    by (simp_all add: parens_def str_def)
  have 5: "keptLines ?P ?pre = [str ''a();'']"
    by (simp add: ev2 CONSOLE_METHODS_num cong: firstSome_cong)
  have 6: "keptLines ?P (dropSemicolon ?rest) = [str ''keep();'']"
    by (simp add: ev2 CONSOLE_METHODS_num cong: firstSome_cong)
  from 2 have r: "readBy ?P (split ?src) ! length ?pre"
    by simp
  from multiline_statement_removed [of ?src ?P ?pre "str ''console.log(''" ?body ?rest]
  obtain out where o: "removeStatements ?src ?P = Inr out" and
    imp: "split ?src = ?pre @ str ''console.log('' # ?body @ ?rest \<and>
      readBy ?P (split ?src) ! length ?pre \<and>
      opensBlock ?P (str ''console.log('') \<and> staysOpen (depthOf (str ''console.log('')) ?body \<and>
      depthAfter (depthOf (str ''console.log('')) ?body = 0 \<longrightarrow>
      out = join (squeeze False (keptLines ?P ?pre @ keptLines ?P (dropSemicolon ?rest)))"
    by blast
  from 1 r 3 4 imp have "out = join (squeeze False (keptLines ?P ?pre @ keptLines ?P (dropSemicolon ?rest)))"
    by blast
  then have "out = str ''a();\<newline>keep();''"
    unfolding 5 6 by (simp add: str_def trim_def isSpace_def)
  with o 1 2 3 4 5 6 show ?thesis by simp
qed

text \<open>
  Claim C1.  For every input and every list of patterns built by \<open>buildPatterns\<close>,
  \<open>removeStatements\<close> returns a string on which \<open>removeStatements\<close> with the same
  patterns changes nothing and in which \<open>findMatches\<close> finds no match.
\<close>

theorem removeStatements_idempotent:
  "\<exists>out. removeStatements src (buildPatterns keep) = Inr out \<and>
     removeStatements out (buildPatterns keep) = Inr out \<and>
     findMatches out (buildPatterns keep) = []"
  using output_fixpoint [OF refl, of "buildPatterns keep" src]
  by (simp add: removeStatements_eq findMatches_def)

text \<open>
  Claim C3, as stated, fails: a line with a call to a kept method is removed as a whole
  when a pattern matches something else on it.
\<close>

theorem kept_call_removed:
  "str ''error'' \<in> set [str ''error''] \<and>
   removeStatements (str ''console.error(1); debugger;'') (buildPatterns [str ''error'']) = Inr []"
  by (simp add: buildPatterns_error ev CONSOLE_METHODS_num cong: firstSome_cong)

text \<open>
  Claim C3, amended.  With the patterns built from a keep list, no match has the type
  \<open>console.M\<close> for a method \<open>M\<close> of the list.  \<open>removeStatements\<close> removes whole lines,
  and only these: the lines on which \<open>findMatches\<close> reports a match, the lines consumed
  inside a block, and the blank lines that follow a blank line in what remains.  The
  output is the lines of the input that the main loop reads and that carry no match of
  \<open>findMatches\<close>, in order, without the blank lines that follow a blank line.
\<close>

theorem kept_methods:
  "(\<forall>M \<in> set keep. \<forall>m \<in> set (findMatches src (buildPatterns keep)).
      type m \<noteq> str ''console.'' @ M) \<and>
   (\<exists>out. removeStatements src (buildPatterns keep) = Inr out \<and>
      out = join (squeeze False (map ((!) (split src))
        (filter (\<lambda>i. readBy (buildPatterns keep) (split src) ! i \<and>
                     (\<forall>m \<in> set (findMatches src (buildPatterns keep)). line m \<noteq> i + 1))
           [0 ..< length (split src)]))))"
proof -
  let ?P = "buildPatterns keep"
  let ?ms = "filter (\<lambda>m. m \<notin> set keep) CONSOLE_METHODS"
  have a: "type m \<noteq> str ''console.'' @ M"
    if M: "M \<in> set keep" and m: "m \<in> set (findMatches src ?P)" for M m
  proof -
    from m findFrom_elem [of m ?P "split src" 0] obtain l p k e where
      p: "p \<in> set ?P" and ke: "(k, e) \<in> set (execAll p l 0)"
      and ty: "type m = typeOf (slice l k e)"
      by (auto simp: findMatches_def)
    from p buildPatterns_cases [of keep] consider "p = Debugger" | "p = Alert" | "p = Console ?ms"
      by auto
    then show ?thesis
    proof cases
      case 1
      with match_type [OF ke] ty show ?thesis by (simp add: console_prefix_distinct)
    next
      case 2
      with match_type [OF ke] ty show ?thesis by (simp add: console_prefix_distinct)
    next
      case 3
      with match_type [OF ke] ty have
        "(\<exists>m' \<in> set ?ms. type m = str ''console.'' @ m') \<or> type m = str ''unknown''"
        by auto
      with M show ?thesis by (auto simp: console_prefix_distinct)
    qed
  qed
  have b: "removeStatements src ?P = Inr (join (squeeze False (map ((!) (split src))
        (filter (\<lambda>i. readBy ?P (split src) ! i \<and>
                     (\<forall>m \<in> set (findMatches src ?P). line m \<noteq> i + 1))
           [0 ..< length (split src)]))))"
    unfolding removeStatements_keptLines keptLines_matches ..
  from a b show ?thesis
    by blast
qed

theorem kept_methods_witness:
  "str ''error'' \<in> set [str ''error''] \<and>
   map (\<lambda>m. (line m, type m))
     (findMatches (str ''console.error(1);\<newline>console.log(2);\<newline>console.error(3); debugger;'')
        (buildPatterns [str ''error''])) = [(2, str ''console.log''), (3, str ''debugger'')] \<and>
   str ''console.log'' \<noteq> str ''console.'' @ str ''error'' \<and>
   str ''debugger'' \<noteq> str ''console.'' @ str ''error'' \<and>
   readBy (buildPatterns [str ''error''])
     (split (str ''console.error(1);\<newline>console.log(2);\<newline>console.error(3); debugger;'')) =
     [True, True, True] \<and>
   removeStatements (str ''console.error(1);\<newline>console.log(2);\<newline>console.error(3); debugger;'')
     (buildPatterns [str ''error'']) = Inr (str ''console.error(1);'')"
proof -
  let ?keep = "[str ''error'']"
  let ?P = "buildPatterns ?keep"
  let ?src = "str ''console.error(1);\<newline>console.log(2);\<newline>console.error(3); debugger;''"
  have fm: "map (\<lambda>m. (line m, type m)) (findMatches ?src ?P) =
      [(2, str ''console.log''), (3, str ''debugger'')]"
    by (simp add: buildPatterns_error ev CONSOLE_METHODS_num cong: firstSome_cong)
  have rb: "readBy ?P (split ?src) = [True, True, True]"
    by (simp add: buildPatterns_error ev2 CONSOLE_METHODS_num cong: firstSome_cong)
  have sp: "split ?src = [str ''console.error(1);'', str ''console.log(2);'',
      str ''console.error(3); debugger;'']"
    by (simp add: str_def)
  from fm obtain m1 m2 where ms: "findMatches ?src ?P = [m1, m2]"
    and m1: "line m1 = 2" "type m1 = str ''console.log''"
    and m2: "line m2 = 3" "type m2 = str ''debugger''"
    by auto
  note T = kept_methods [of ?keep ?src]
  from T ms m1 m2 have a: "str ''console.log'' \<noteq> str ''console.'' @ str ''error''"
    "str ''debugger'' \<noteq> str ''console.'' @ str ''error''"
    by auto
  from T obtain out where o: "removeStatements ?src ?P = Inr out"
    and e: "out = join (squeeze False (map ((!) (split ?src))
        (filter (\<lambda>i. readBy ?P (split ?src) ! i \<and>
                     (\<forall>m \<in> set (findMatches ?src ?P). line m \<noteq> i + 1))
           [0 ..< length (split ?src)])))"
    by blast
  have "filter (\<lambda>i. readBy ?P (split ?src) ! i \<and>
                     (\<forall>m \<in> set (findMatches ?src ?P). line m \<noteq> i + 1))
           [0 ..< length (split ?src)] = [0]"
    unfolding rb ms unfolding sp by (simp add: m1 m2 upt_rec)
  with e have "out = join (squeeze False [split ?src ! 0])"
    by simp
  then have "out = str ''console.error(1);''"
    unfolding sp by (simp add: str_def trim_def isSpace_def)
  with fm a rb o show ?thesis by simp
qed

text \<open>
  Claim C7.  When the keep list has all the methods of \<open>CONSOLE_METHODS\<close>,
  \<open>buildPatterns\<close> leaves the console pattern out: the patterns are the one for
  \<open>debugger\<close> and the one for \<open>alert(\<close>, every match has one of these two types, and
  \<open>debugger\<close> and \<open>alert(1)\<close> are still matched.  With an empty keep list the patterns are
  the console pattern for all the 20 methods, the one for \<open>debugger\<close> and the one for
  \<open>alert(\<close>.
\<close>

theorem all_methods_kept:
  "(set CONSOLE_METHODS \<subseteq> set keep \<longrightarrow>
      buildPatterns keep = [Debugger, Alert] \<and>
      (\<forall>m \<in> set (findMatches src (buildPatterns keep)).
         type m = str ''debugger'' \<or> type m = str ''alert'') \<and>
      map type (findMatches (str ''debugger'') (buildPatterns keep)) = [str ''debugger''] \<and>
      map type (findMatches (str ''alert(1)'') (buildPatterns keep)) = [str ''alert'']) \<and>
   buildPatterns [] = [Console CONSOLE_METHODS, Debugger, Alert] \<and>
   length CONSOLE_METHODS = 20 \<and> distinct CONSOLE_METHODS"
proof -
  have t: "type m = str ''debugger'' \<or> type m = str ''alert''"
    if "m \<in> set (findMatches src [Debugger, Alert])" for m
  proof -
    from that findFrom_elem [of m "[Debugger, Alert]" "split src" 0] obtain l p k e where
      p: "p = Debugger \<or> p = Alert" and ke: "(k, e) \<in> set (execAll p l 0)"
      and ty: "type m = typeOf (slice l k e)"
      by (auto simp: findMatches_def)
    with match_type [OF ke] show ?thesis by auto
  qed
  have d: "map type (findMatches (str ''debugger'') [Debugger, Alert]) = [str ''debugger'']"
    by (simp add: ev cong: firstSome_cong)
  have a: "map type (findMatches (str ''alert(1)'') [Debugger, Alert]) = [str ''alert'']"
    by (simp add: ev cong: firstSome_cong)
  have n: "length CONSOLE_METHODS = 20" "distinct CONSOLE_METHODS"
    by (simp_all add: CONSOLE_METHODS_num)
  from t d a n show ?thesis
    by (auto simp: buildPatterns_all buildPatterns_Nil)
qed


theorem all_methods_kept_witness:
  "set CONSOLE_METHODS \<subseteq> set CONSOLE_METHODS \<and>
   buildPatterns CONSOLE_METHODS = [Debugger, Alert] \<and>
   map type (findMatches (str ''console.log(1); debugger; alert(2)'')
     (buildPatterns CONSOLE_METHODS)) = [str ''debugger'', str ''alert'']"
proof -
  from all_methods_kept [of CONSOLE_METHODS "[]"]
  have bp: "buildPatterns CONSOLE_METHODS = [Debugger, Alert]"
    by simp
  have "map type (findMatches (str ''console.log(1); debugger; alert(2)'') [Debugger, Alert]) =
      [str ''debugger'', str ''alert'']"
    by (simp add: ev cong: firstSome_cong)
  with bp show ?thesis by simp
qed

text \<open>
  Claim C6, as stated, fails: on one line the matches of the console pattern come before
  those of the \<open>debugger\<close> pattern, whatever their columns.
\<close>

theorem columns_not_sorted:
  "map (\<lambda>m. (line m, column m))
     (findMatches (str ''debugger; console.log(1)'') (buildPatterns [])) = [(1, 11), (1, 1)]"
  by (simp add: buildPatterns_Nil ev CONSOLE_METHODS_num cong: firstSome_cong)

text \<open>
  Claim C6, amended.  The matches returned by \<open>findMatches\<close>, for the patterns of any keep
  list, are in the order of the loops: by line number, which never decreases; on one line
  the matches of the console pattern first, then those of the \<open>debugger\<close> pattern, then
  those of the \<open>alert\<close> pattern; and the matches of one pattern on one line by strictly
  increasing column.
\<close>

theorem matches_order:
  "sorted_wrt before (findMatches src (buildPatterns keep)) \<and>
   sorted (map line (findMatches src (buildPatterns keep)))"
proof -
  from buildPatterns_ranked [of keep]
  have s: "sorted_wrt before (findMatches src (buildPatterns keep))"
    unfolding findMatches_def by (intro findFrom_sorted) auto
  have "sorted_wrt (\<lambda>a b. line a \<le> line b) (findMatches src (buildPatterns keep))"
    by (rule sorted_wrt_mono_rel [OF _ s]) (auto simp: before_def)
  then have "sorted (map line (findMatches src (buildPatterns keep)))"
    by (simp add: sorted_wrt_map)
  with s show ?thesis by simp
qed

end
